theory Spec2Isabelle
  imports Main "HOL-Library.Word"
begin

unbundle bit_operations_syntax

section \<open>Data model of \<open>lib/index.cjs\<close>\<close>

text \<open>
  A JavaScript string is a sequence of UTF-16 code units; \<open>string[i]\<close> is the one-unit
  string at index \<open>i\<close> and \<open>StringPrototypeCharCodeAt\<close> of such a string is the unit
  itself. A character is therefore modelled by its code unit, a string by the list of
  its units. A \<open>Uint8Array\<close> is a list of bytes; a write at an index beyond its length
  is dropped by the typed array, which is what \<open>xs[i := v]\<close> does on lists.
\<close>

type_synonym jschar = nat
type_synonym jsstring = "jschar list"
type_synonym uint8array = "8 word list"

definition utf16 :: "string \<Rightarrow> jsstring" where
  "utf16 s = map of_char s"

definition BASE :: nat where
  "BASE = 32"

definition ALPHABET :: jsstring where
  "ALPHABET = utf16 ''0123456789ABCDEFGHJKMNPQRSTVWXYZ''"

definition BITS_PER_CHAR :: int where
  "BITS_PER_CHAR = 5"

definition NEGATIVE_CHAR :: jschar where
  "NEGATIVE_CHAR = of_char (CHR ''-'')"

definition NumberMAX_SAFE_INTEGER :: int where
  "NumberMAX_SAFE_INTEGER = 2 ^ 53 - 1"

definition NumberMIN_SAFE_INTEGER :: int where
  "NumberMIN_SAFE_INTEGER = - (2 ^ 53 - 1)"

text \<open>
  Every \<open>throw\<close> of the source is a value of \<open>error\<close>; the interpolated character (or byte)
  and index of the message are the constructor's arguments. The \<open>TypeError\<close>s of the
  source guard the argument kinds, which the types of the model fix.
\<close>

datatype error =
    AlphabetLength
  | AlphabetInvalidCharacter jschar nat
  | AlphabetDuplicateCharacter jschar nat
  | BelowMinSafeInteger
  | AboveMaxSafeInteger
  | InvalidCharacter jschar nat
  | InvalidByte "8 word" nat

datatype error_kind = RangeError | SyntaxError

fun kind :: "error \<Rightarrow> error_kind" where
  "kind AlphabetLength = RangeError"
| "kind (AlphabetInvalidCharacter c i) = SyntaxError"
| "kind (AlphabetDuplicateCharacter c i) = SyntaxError"
| "kind BelowMinSafeInteger = RangeError"
| "kind AboveMaxSafeInteger = RangeError"
| "kind (InvalidCharacter c i) = SyntaxError"
| "kind (InvalidByte b i) = SyntaxError"

section \<open>Alphabet table\<close>

record lookups =
  lookup :: "jschar \<rightharpoonup> nat"
  baseMap :: uint8array
  baseMapLookup :: "nat \<rightharpoonup> nat"

text \<open>
  One iteration of the loop of \<open>createAlphabetLookups\<close>. \<open>baseMap\<close> is a \<open>Uint8Array\<close>, so
  the stored code is reduced modulo 256; \<open>StringFromCharCode\<close> reduces modulo \<open>2 ^ 16\<close>;
  the keys of \<open>baseMapLookup\<close> are the numbers themselves.
\<close>

definition createAlphabetLookups_step :: "jsstring \<Rightarrow> lookups \<Rightarrow> nat \<Rightarrow> lookups" where
  "createAlphabetLookups_step alphabet t i =
     (let char = alphabet ! i;
          charCode = char;
          t = t\<lparr>lookup := (lookup t)(char \<mapsto> i),
                baseMap := (baseMap t)[i := of_nat charCode],
                baseMapLookup := (baseMapLookup t)(charCode \<mapsto> i)\<rparr>
      in if char = of_char (CHR ''0'') then
           t\<lparr>lookup := (lookup t)(of_char (CHR ''O'') \<mapsto> i, of_char (CHR ''o'') \<mapsto> i),
             baseMapLookup := (baseMapLookup t)(0x4f \<mapsto> i, 0x6f \<mapsto> i)\<rparr>
         else if char = of_char (CHR ''1'') then
           t\<lparr>lookup := (lookup t)(of_char (CHR ''I'') \<mapsto> i, of_char (CHR ''i'') \<mapsto> i,
                                   of_char (CHR ''L'') \<mapsto> i, of_char (CHR ''l'') \<mapsto> i),
             baseMapLookup := (baseMapLookup t)(0x49 \<mapsto> i, 0x69 \<mapsto> i, 0x4c \<mapsto> i, 0x6c \<mapsto> i)\<rparr>
         else if charCode > 64 then
           (let lowerCharCode = charCode + 32;
                lowerChar = lowerCharCode mod 2 ^ 16
            in t\<lparr>lookup := (lookup t)(lowerChar \<mapsto> i),
                 baseMapLookup := (baseMapLookup t)(lowerCharCode \<mapsto> i)\<rparr>)
         else t)"

text \<open>
  The loop runs \<open>i\<close> over \<open>0 ..< BASE\<close>; the constructor calls it only with an alphabet
  of \<open>BASE\<close> characters, so every \<open>alphabet ! i\<close> is in range.
\<close>

definition createAlphabetLookups :: "jsstring \<Rightarrow> lookups" where
  "createAlphabetLookups alphabet =
     foldl (createAlphabetLookups_step alphabet)
       \<lparr>lookup = Map.empty, baseMap = replicate BASE 0, baseMapLookup = Map.empty\<rparr>
       [0..<BASE]"

record codec =
  alphabetSymbol :: jsstring
  alphabetLookupSymbol :: "jschar \<rightharpoonup> nat"
  baseMapSymbol :: uint8array
  baseMapLookupSymbol :: "nat \<rightharpoonup> nat"

text \<open>The body of the constructor after \<open>toAlphabet\<close> has returned.\<close>

definition new_codec :: "jsstring \<Rightarrow> codec" where
  "new_codec alphabet =
     (let lookups = createAlphabetLookups alphabet
      in \<lparr>alphabetSymbol = alphabet,
          alphabetLookupSymbol = lookup lookups,
          baseMapSymbol = baseMap lookups,
          baseMapLookupSymbol = baseMapLookup lookups\<rparr>)"

text \<open>
  The module's default instance, \<open>new Base32Crockford()\<close>: \<open>toAlphabet undefined\<close> returns
  \<open>ALPHABET\<close> before it reads the instance.
\<close>

definition base32Crockford :: codec where
  "base32Crockford = new_codec ALPHABET"

text \<open>
  The scan shared by \<open>toAlphabet\<close> and \<open>isAlphabet\<close>: \<open>i\<close> runs over the index list,
  \<open>uniqueCharsLookup\<close> is threaded through, and the first failing test ends the scan.
\<close>

fun toAlphabet_loop :: "jsstring \<Rightarrow> nat list \<Rightarrow> (jschar \<rightharpoonup> nat) \<Rightarrow> error + unit" where
  "toAlphabet_loop v [] uniqueCharsLookup = Inr ()"
| "toAlphabet_loop v (i # is) uniqueCharsLookup =
     (let char = v ! i
      in if alphabetLookupSymbol base32Crockford char = None then
           Inl (AlphabetInvalidCharacter char i)
         else if uniqueCharsLookup char \<noteq> None then
           Inl (AlphabetDuplicateCharacter char i)
         else toAlphabet_loop v is (uniqueCharsLookup(char \<mapsto> i)))"

definition toAlphabet :: "jsstring option \<Rightarrow> error + jsstring" where
  "toAlphabet v =
     (case v of
        None \<Rightarrow> Inr ALPHABET
      | Some s \<Rightarrow>
          if length s \<noteq> BASE then Inl AlphabetLength
          else (case toAlphabet_loop s [0..<BASE] Map.empty of
                  Inl e \<Rightarrow> Inl e
                | Inr _ \<Rightarrow> Inr s))"

fun isAlphabet_loop :: "jsstring \<Rightarrow> nat list \<Rightarrow> (jschar \<rightharpoonup> nat) \<Rightarrow> bool" where
  "isAlphabet_loop v [] uniqueCharsLookup = True"
| "isAlphabet_loop v (i # is) uniqueCharsLookup =
     (let char = v ! i
      in if alphabetLookupSymbol base32Crockford char = None \<or> uniqueCharsLookup char \<noteq> None
         then False
         else isAlphabet_loop v is (uniqueCharsLookup(char \<mapsto> i)))"

definition isAlphabet :: "jsstring \<Rightarrow> bool" where
  "isAlphabet v = (if length v \<noteq> BASE then False else isAlphabet_loop v [0..<BASE] Map.empty)"

text \<open>\<open>new Base32Crockford(alphabet)\<close>; \<open>None\<close> is the omitted argument.\<close>

definition Base32Crockford :: "jsstring option \<Rightarrow> error + codec" where
  "Base32Crockford alphabet =
     (case toAlphabet alphabet of
        Inl e \<Rightarrow> Inl e
      | Inr a \<Rightarrow> Inr (new_codec a))"

section \<open>Byte codec\<close>

text \<open>
  The slice arithmetic that opens each of the four byte-range methods. \<open>start\<close> and \<open>end\<close>
  are \<open>None\<close> when \<open>undefined\<close>, otherwise the integer \<open>TypesToIntegerOrInfinity\<close> gives
  (an infinity is clamped exactly as an integer beyond the length is).
\<close>

definition sliceIndex :: "int \<Rightarrow> int option \<Rightarrow> int \<Rightarrow> int" where
  "sliceIndex len arg dflt =
     (case arg of
        None \<Rightarrow> dflt
      | Some a \<Rightarrow> if a < 0 then max 0 (len + a) else min a len)"

definition toStartIndex :: "nat \<Rightarrow> int option \<Rightarrow> nat" where
  "toStartIndex len start = nat (sliceIndex (int len) start 0)"

definition toEndIndex :: "nat \<Rightarrow> int option \<Rightarrow> nat" where
  "toEndIndex len end = nat (sliceIndex (int len) end (int len))"

text \<open>
  The body of the loop of \<open>encodeToStringSymbol\<close> on the state \<open>(result, shift, carry)\<close>.
  The operands of the bitwise operators stay far below \<open>2 ^ 31\<close> and the shift counts
  between 0 and 8, where the 32-bit operators of JavaScript are those of the naturals.
\<close>

fun encodeToString_step ::
  "jsstring \<Rightarrow> nat \<Rightarrow> jsstring \<times> int \<times> nat \<Rightarrow> jsstring \<times> int \<times> nat" where
  "encodeToString_step alphabet byte (result, shift, carry) =
     (let number = carry OR drop_bit (nat shift) byte;
          result = result @ [alphabet ! (number AND 0x1f)];
          (result, shift) =
            (if shift > BITS_PER_CHAR then
               (let shift = shift - BITS_PER_CHAR;
                    number = drop_bit (nat shift) byte
                in (result @ [alphabet ! (number AND 0x1f)], shift))
             else (result, shift));
          shift = BITS_PER_CHAR - shift;
          carry = push_bit (nat shift) byte;
          shift = 8 - shift
      in (result, shift, carry))"

fun encodeToString_loop ::
  "jsstring \<Rightarrow> uint8array \<Rightarrow> nat list \<Rightarrow> jsstring \<times> int \<times> nat \<Rightarrow> jsstring \<times> int \<times> nat" where
  "encodeToString_loop alphabet input [] st = st"
| "encodeToString_loop alphabet input (i # is) st =
     encodeToString_loop alphabet input is (encodeToString_step alphabet (unat (input ! i)) st)"

definition encodeToStringSymbol ::
  "codec \<Rightarrow> uint8array \<Rightarrow> int option \<Rightarrow> int option \<Rightarrow> jsstring" where
  "encodeToStringSymbol this input start end =
     (let alphabet = alphabetSymbol this;
          len = length input;
          (result, shift, carry) =
            encodeToString_loop alphabet input [toStartIndex len start ..< toEndIndex len end] ([], 3, 0)
      in if shift \<noteq> 3 then result @ [alphabet ! (carry AND 0x1f)] else result)"

definition encodeToString :: "codec \<Rightarrow> uint8array \<Rightarrow> int option \<Rightarrow> int option \<Rightarrow> jsstring" where
  "encodeToString this input start end = encodeToStringSymbol this input start end"

text \<open>
  \<open>encode\<close> runs the same machine on a preallocated \<open>Uint8Array\<close>, the state being
  \<open>(result, shift, carry, index)\<close>; \<open>new Uint8Array(x)\<close> truncates a fractional length.
\<close>

fun encode_step ::
  "uint8array \<Rightarrow> nat \<Rightarrow> uint8array \<times> int \<times> nat \<times> nat \<Rightarrow> uint8array \<times> int \<times> nat \<times> nat" where
  "encode_step baseMap' byte (result, shift, carry, index) =
     (let number = carry OR drop_bit (nat shift) byte;
          result = result[index := baseMap' ! (number AND 0x1f)];
          index = index + 1;
          (result, shift, index) =
            (if shift > BITS_PER_CHAR then
               (let shift = shift - BITS_PER_CHAR;
                    number = drop_bit (nat shift) byte
                in (result[index := baseMap' ! (number AND 0x1f)], shift, index + 1))
             else (result, shift, index));
          shift = BITS_PER_CHAR - shift;
          carry = push_bit (nat shift) byte;
          shift = 8 - shift
      in (result, shift, carry, index))"

fun encode_loop ::
  "uint8array \<Rightarrow> uint8array \<Rightarrow> nat list \<Rightarrow> uint8array \<times> int \<times> nat \<times> nat
     \<Rightarrow> uint8array \<times> int \<times> nat \<times> nat" where
  "encode_loop baseMap' input [] st = st"
| "encode_loop baseMap' input (i # is) st =
     encode_loop baseMap' input is (encode_step baseMap' (unat (input ! i)) st)"

definition encode :: "codec \<Rightarrow> uint8array \<Rightarrow> int option \<Rightarrow> int option \<Rightarrow> uint8array" where
  "encode this input start end =
     (let baseMap = baseMapSymbol this;
          len = length input;
          startIndex = toStartIndex len start;
          endIndex = toEndIndex len end;
          newLength = max 0 (int endIndex - int startIndex);
          result = replicate (nat ((newLength * 8 + 4) div BITS_PER_CHAR)) 0;
          (result, shift, carry, index) =
            encode_loop baseMap input [startIndex ..< endIndex] (result, 3, 0, 0)
      in if shift \<noteq> 3 then result[index := baseMap ! (carry AND 0x1f)] else result)"

text \<open>
  The two decoders run one and the same loop body from \<open>const number = charIndex & 0xff\<close>
  on; it is modelled once, on the state \<open>(result, shift, carry, index)\<close>. A byte stored
  into the \<open>Uint8Array\<close> is reduced modulo 256.
\<close>

fun decode_step ::
  "nat \<Rightarrow> uint8array \<times> int \<times> nat \<times> nat \<Rightarrow> uint8array \<times> int \<times> nat \<times> nat" where
  "decode_step charIndex (result, shift, carry, index) =
     (let number = charIndex AND 0xff;
          shift = shift - BITS_PER_CHAR
      in if shift > 0 then
           (result, shift, carry OR push_bit (nat shift) number, index)
         else if shift < 0 then
           (let result = result[index := of_nat (carry OR drop_bit (nat (- shift)) number)];
                shift = shift + 8
            in (result, shift, push_bit (nat shift) number AND 0xff, index + 1))
         else
           (result[index := of_nat (carry OR number)], 8, 0, index + 1))"

fun decodeFromString_loop ::
  "(jschar \<rightharpoonup> nat) \<Rightarrow> jsstring \<Rightarrow> nat list \<Rightarrow> uint8array \<times> int \<times> nat \<times> nat
     \<Rightarrow> error + uint8array \<times> int \<times> nat \<times> nat" where
  "decodeFromString_loop alphabetLookup string [] st = Inr st"
| "decodeFromString_loop alphabetLookup string (i # is) st =
     (let char = string ! i
      in case alphabetLookup char of
           None \<Rightarrow> Inl (InvalidCharacter char i)
         | Some charIndex \<Rightarrow>
             decodeFromString_loop alphabetLookup string is (decode_step charIndex st))"

text \<open>The tail after either loop: the write of the partial byte and the return.\<close>

fun decode_finish :: "uint8array \<times> int \<times> nat \<times> nat \<Rightarrow> uint8array" where
  "decode_finish (result, shift, carry, index) =
     (if shift \<noteq> 8 \<and> carry \<noteq> 0 then result[index := of_nat carry] else result)"

definition decodeFromStringSymbol ::
  "codec \<Rightarrow> jsstring \<Rightarrow> int option \<Rightarrow> int option \<Rightarrow> error + uint8array" where
  "decodeFromStringSymbol this string start end =
     (let alphabetLookup = alphabetLookupSymbol this;
          len = length string;
          startIndex = toStartIndex len start;
          endIndex = toEndIndex len end;
          newLength = max 0 (int endIndex - int startIndex);
          result = replicate (nat (newLength * BITS_PER_CHAR div 8)) 0
      in case decodeFromString_loop alphabetLookup string [startIndex ..< endIndex] (result, 8, 0, 0) of
           Inl e \<Rightarrow> Inl e
         | Inr st \<Rightarrow> Inr (decode_finish st))"

definition decodeFromString ::
  "codec \<Rightarrow> jsstring \<Rightarrow> int option \<Rightarrow> int option \<Rightarrow> error + uint8array" where
  "decodeFromString this input start end = decodeFromStringSymbol this input start end"

fun decode_loop ::
  "(nat \<rightharpoonup> nat) \<Rightarrow> uint8array \<Rightarrow> nat list \<Rightarrow> uint8array \<times> int \<times> nat \<times> nat
     \<Rightarrow> error + uint8array \<times> int \<times> nat \<times> nat" where
  "decode_loop baseMapLookup' input [] st = Inr st"
| "decode_loop baseMapLookup' input (i # is) st =
     (let charCode = input ! i
      in case baseMapLookup' (unat charCode) of
           None \<Rightarrow> Inl (InvalidByte charCode i)
         | Some charIndex \<Rightarrow>
             decode_loop baseMapLookup' input is (decode_step charIndex st))"

definition decode :: "codec \<Rightarrow> uint8array \<Rightarrow> int option \<Rightarrow> int option \<Rightarrow> error + uint8array" where
  "decode this input start end =
     (let baseMapLookup = baseMapLookupSymbol this;
          len = length input;
          startIndex = toStartIndex len start;
          endIndex = toEndIndex len end;
          newLength = max 0 (int endIndex - int startIndex);
          result = replicate (nat (newLength * BITS_PER_CHAR div 8)) 0
      in case decode_loop baseMapLookup input [startIndex ..< endIndex] (result, 8, 0, 0) of
           Inl e \<Rightarrow> Inl e
         | Inr st \<Rightarrow> Inr (decode_finish st))"

section \<open>Integer codec\<close>

text \<open>
  \<open>encodeInt\<close> works on a Number. After the range check the value is an integer of
  magnitude at most \<open>2 ^ 53 - 1\<close>, on which \<open>%\<close>, \<open>/\<close> by 32 and \<open>MathFloor\<close> are exact,
  so the loop is modelled on the integers. Its variable holds the magnitude, never zero
  on entry and never negative, hence a natural number; the argument is the integer that
  \<open>TypesToIntegerOrInfinity\<close> returns (an infinity fails the range check as any integer
  beyond it does).
\<close>

function encodeInt_loop :: "jsstring \<Rightarrow> nat \<Rightarrow> jsstring \<Rightarrow> jsstring" where
  "encodeInt_loop alphabet number result =
     (if number \<noteq> 0 then
        encodeInt_loop alphabet (number div BASE) (alphabet ! (number mod BASE) # result)
      else result)"
  by pat_completeness auto
termination
  by (relation "measure (\<lambda>(alphabet, number, result). number)") (auto simp: BASE_def)

definition encodeInt :: "codec \<Rightarrow> int \<Rightarrow> error + jsstring" where
  "encodeInt this v =
     (if v < NumberMIN_SAFE_INTEGER then Inl BelowMinSafeInteger
      else if v > NumberMAX_SAFE_INTEGER then Inl AboveMaxSafeInteger
      else
        (let alphabet = alphabetSymbol this
         in if v = 0 then Inr [alphabet ! 0]
            else
              (let isNegative = v < 0;
                   number = (if isNegative then - v else v);
                   result = encodeInt_loop alphabet (nat number) []
               in Inr (if isNegative then NEGATIVE_CHAR # result else result))))"

text \<open>
  The accumulator of \<open>decodeInt\<close> is a Number too, and no check bounds it. \<open>Integer n\<close> is
  a Number holding the integer \<open>n\<close> of the safe range exactly; \<open>Unsafe\<close> is a Number whose
  magnitude has left that range and whose rounded value the model does not follow: it
  is positive in the loop and stays \<open>Unsafe\<close> under \<open>result * BASE + index\<close> and under the
  negation that ends \<open>decodeInt\<close>.
\<close>

datatype number = Integer int | Unsafe

definition accumulate :: "number \<Rightarrow> nat \<Rightarrow> number" where
  "accumulate result index =
     (case result of
        Integer r \<Rightarrow>
          (let v = r * int BASE + int index
           in if v \<le> NumberMAX_SAFE_INTEGER then Integer v else Unsafe)
      | Unsafe \<Rightarrow> Unsafe)"

fun decodeInt_loop ::
  "(jschar \<rightharpoonup> nat) \<Rightarrow> jsstring \<Rightarrow> nat list \<Rightarrow> number \<Rightarrow> error + number" where
  "decodeInt_loop alphabetLookup string [] result = Inr result"
| "decodeInt_loop alphabetLookup string (i # is) result =
     (let char = string ! i
      in case alphabetLookup char of
           None \<Rightarrow> Inl (InvalidCharacter char i)
         | Some index \<Rightarrow> decodeInt_loop alphabetLookup string is (accumulate result index))"

definition startsNegative :: "jsstring \<Rightarrow> bool" where
  "startsNegative string = (case string of [] \<Rightarrow> False | c # _ \<Rightarrow> c = NEGATIVE_CHAR)"

definition decodeInt :: "codec \<Rightarrow> jsstring \<Rightarrow> error + number" where
  "decodeInt this string =
     (let alphabetLookup = alphabetLookupSymbol this;
          len = length string;
          isNegative = startsNegative string
      in case decodeInt_loop alphabetLookup string
                [(if isNegative \<and> len > 1 then 1 else 0) ..< len] (Integer 0) of
           Inl e \<Rightarrow> Inl e
         | Inr result \<Rightarrow>
             Inr (case result of
                    Integer r \<Rightarrow> if isNegative \<and> r > 0 then Integer (- r) else Integer r
                  | Unsafe \<Rightarrow> Unsafe))"

text \<open>The BigInt pair: the same algorithm on unbounded integers, without the range check.\<close>

function encodeBigInt_loop :: "jsstring \<Rightarrow> nat \<Rightarrow> jsstring \<Rightarrow> jsstring" where
  "encodeBigInt_loop alphabet bigInt result =
     (if bigInt \<noteq> 0 then
        encodeBigInt_loop alphabet (bigInt div 32) (alphabet ! (bigInt mod 32) # result)
      else result)"
  by pat_completeness auto
termination
  by (relation "measure (\<lambda>(alphabet, bigInt, result). bigInt)") auto

definition encodeBigInt :: "codec \<Rightarrow> int \<Rightarrow> jsstring" where
  "encodeBigInt this v =
     (let alphabet = alphabetSymbol this
      in if v = 0 then [alphabet ! 0]
         else
           (let isNegative = v < 0;
                bigInt = (if isNegative then - v else v);
                result = encodeBigInt_loop alphabet (nat bigInt) []
            in if isNegative then NEGATIVE_CHAR # result else result))"

fun decodeBigInt_loop ::
  "(jschar \<rightharpoonup> nat) \<Rightarrow> jsstring \<Rightarrow> nat list \<Rightarrow> int \<Rightarrow> error + int" where
  "decodeBigInt_loop alphabetLookup string [] result = Inr result"
| "decodeBigInt_loop alphabetLookup string (i # is) result =
     (let char = string ! i
      in case alphabetLookup char of
           None \<Rightarrow> Inl (InvalidCharacter char i)
         | Some index \<Rightarrow> decodeBigInt_loop alphabetLookup string is (result * 32 + int index))"

definition decodeBigInt :: "codec \<Rightarrow> jsstring \<Rightarrow> error + int" where
  "decodeBigInt this string =
     (let alphabetLookup = alphabetLookupSymbol this;
          len = length string;
          isNegative = startsNegative string
      in case decodeBigInt_loop alphabetLookup string
                [(if isNegative \<and> len > 1 then 1 else 0) ..< len] 0 of
           Inl e \<Rightarrow> Inl e
         | Inr result \<Rightarrow> Inr (if isNegative then - result else result))"

section \<open>Auxiliary functions of the proofs\<close>

text \<open>
  The sequence of 5-bit values that the encoder's machine emits from the state
  \<open>(shift, carry)\<close> on the remaining bytes, the symbol flushed after the loop included.
  Both encoders are shown below to output the image of this sequence.
\<close>

fun symbols :: "int \<Rightarrow> nat \<Rightarrow> uint8array \<Rightarrow> nat list" where
  "symbols shift carry [] = (if shift \<noteq> 3 then [carry AND 0x1f] else [])"
| "symbols shift carry (b # bs) =
     (if shift > 5 then
        ((carry OR drop_bit (nat shift) (unat b)) AND 0x1f)
          # (drop_bit (nat (shift - 5)) (unat b) AND 0x1f)
          # symbols (8 - (5 - (shift - 5))) (push_bit (nat (5 - (shift - 5))) (unat b)) bs
      else
        ((carry OR drop_bit (nat shift) (unat b)) AND 0x1f)
          # symbols (8 - (5 - shift)) (push_bit (nat (5 - shift)) (unat b)) bs)"

text \<open>
  The sequence of bytes that the decoder's loop writes from the state \<open>(shift, carry)\<close> on
  the remaining 5-bit values.
\<close>

fun bytes :: "int \<Rightarrow> nat \<Rightarrow> nat list \<Rightarrow> uint8array" where
  "bytes shift carry [] = []"
| "bytes shift carry (v # vs) =
     (if shift - 5 > 0 then
        bytes (shift - 5) (carry OR push_bit (nat (shift - 5)) (v AND 0xff)) vs
      else if shift - 5 < 0 then
        of_nat (carry OR drop_bit (nat (- (shift - 5))) (v AND 0xff))
          # bytes (shift - 5 + 8) (push_bit (nat (shift - 5 + 8)) (v AND 0xff) AND 0xff) vs
      else
        of_nat (carry OR (v AND 0xff)) # bytes 8 0 vs)"

text \<open>Consecutive writes into a typed array from an index on; those out of range are dropped.\<close>

fun writes :: "'a list \<Rightarrow> nat \<Rightarrow> 'a list \<Rightarrow> 'a list" where
  "writes xs i [] = xs"
| "writes xs i (y # ys) = writes (xs[i := y]) (Suc i) ys"

text \<open>
  A codec whose two lookups send each canonical symbol, and each canonical byte code,
  back to its own index.
\<close>

definition canonical_lookups :: "codec \<Rightarrow> bool" where
  "canonical_lookups this =
     list_all (\<lambda>v. alphabetLookupSymbol this (alphabetSymbol this ! v) = Some v \<and>
                    baseMapLookupSymbol this (unat (baseMapSymbol this ! v)) = Some v)
       [0..<BASE]"

text \<open>The keys that one symbol of an alphabet contributes to the character lookup.\<close>

definition keys_of :: "jschar \<Rightarrow> jschar set" where
  "keys_of c =
     (if c = of_char (CHR ''0'') then {c, of_char (CHR ''O''), of_char (CHR ''o'')}
      else if c = of_char (CHR ''1'') then
        {c, of_char (CHR ''I''), of_char (CHR ''i''), of_char (CHR ''L''), of_char (CHR ''l'')}
      else if c > 64 then {c, (c + 32) mod 2 ^ 16}
      else {c})"

section \<open>The default instance, evaluated\<close>

lemma list_update_Cons_numeral: "(x # xs)[numeral v := y] = x # xs[numeral v - 1 := y]"
  by (simp add: numeral_eq_Suc)

lemma upt_BASE: "[0..<BASE] = [0, 1, 2, 3, 4, 5, 6, 7, 8, 9, 10, 11, 12, 13, 14, 15, 16, 17, 18, 19, 20, 21, 22, 23, 24, 25, 26, 27, 28, 29, 30, 31]"
  unfolding BASE_def by (simp add: upt_rec numeral_eq_Suc)

lemma replicate_BASE: "replicate BASE (0::8 word) = [0, 0, 0, 0, 0, 0, 0, 0, 0, 0, 0, 0, 0, 0, 0, 0, 0, 0, 0, 0, 0, 0, 0, 0, 0, 0, 0, 0, 0, 0, 0, 0]"
  unfolding BASE_def by (simp add: numeral_eq_Suc)

lemma ALPHABET_codes: "ALPHABET = [48, 49, 50, 51, 52, 53, 54, 55, 56, 57, 65, 66, 67, 68, 69, 70, 71, 72, 74, 75, 77, 78, 80, 81, 82, 83, 84, 86, 87, 88, 89, 90]"
  by (simp add: ALPHABET_def utf16_def)

lemma createAlphabetLookups_ALPHABET:
  "createAlphabetLookups ALPHABET =
     \<lparr>lookup = Map.empty(48 \<mapsto> 0, 79 \<mapsto> 0, 111 \<mapsto> 0, 49 \<mapsto> 1, 73 \<mapsto> 1, 105 \<mapsto> 1, 76 \<mapsto> 1, 108 \<mapsto> 1, 50 \<mapsto> 2, 51 \<mapsto> 3, 52 \<mapsto> 4, 53 \<mapsto> 5, 54 \<mapsto> 6, 55 \<mapsto> 7, 56 \<mapsto> 8, 57 \<mapsto> 9, 65 \<mapsto> 10, 97 \<mapsto> 10, 66 \<mapsto> 11, 98 \<mapsto> 11, 67 \<mapsto> 12, 99 \<mapsto> 12, 68 \<mapsto> 13, 100 \<mapsto> 13, 69 \<mapsto> 14, 101 \<mapsto> 14, 70 \<mapsto> 15, 102 \<mapsto> 15, 71 \<mapsto> 16, 103 \<mapsto> 16, 72 \<mapsto> 17, 104 \<mapsto> 17, 74 \<mapsto> 18, 106 \<mapsto> 18, 75 \<mapsto> 19, 107 \<mapsto> 19, 77 \<mapsto> 20, 109 \<mapsto> 20, 78 \<mapsto> 21, 110 \<mapsto> 21, 80 \<mapsto> 22, 112 \<mapsto> 22, 81 \<mapsto> 23, 113 \<mapsto> 23, 82 \<mapsto> 24, 114 \<mapsto> 24, 83 \<mapsto> 25, 115 \<mapsto> 25, 84 \<mapsto> 26, 116 \<mapsto> 26, 86 \<mapsto> 27, 118 \<mapsto> 27, 87 \<mapsto> 28, 119 \<mapsto> 28, 88 \<mapsto> 29, 120 \<mapsto> 29, 89 \<mapsto> 30, 121 \<mapsto> 30, 90 \<mapsto> 31, 122 \<mapsto> 31),
      baseMap = [48, 49, 50, 51, 52, 53, 54, 55, 56, 57, 65, 66, 67, 68, 69, 70, 71, 72, 74, 75, 77, 78, 80, 81, 82, 83, 84, 86, 87, 88, 89, 90],
      baseMapLookup = Map.empty(48 \<mapsto> 0, 79 \<mapsto> 0, 111 \<mapsto> 0, 49 \<mapsto> 1, 73 \<mapsto> 1, 105 \<mapsto> 1, 76 \<mapsto> 1, 108 \<mapsto> 1, 50 \<mapsto> 2, 51 \<mapsto> 3, 52 \<mapsto> 4, 53 \<mapsto> 5, 54 \<mapsto> 6, 55 \<mapsto> 7, 56 \<mapsto> 8, 57 \<mapsto> 9, 65 \<mapsto> 10, 97 \<mapsto> 10, 66 \<mapsto> 11, 98 \<mapsto> 11, 67 \<mapsto> 12, 99 \<mapsto> 12, 68 \<mapsto> 13, 100 \<mapsto> 13, 69 \<mapsto> 14, 101 \<mapsto> 14, 70 \<mapsto> 15, 102 \<mapsto> 15, 71 \<mapsto> 16, 103 \<mapsto> 16, 72 \<mapsto> 17, 104 \<mapsto> 17, 74 \<mapsto> 18, 106 \<mapsto> 18, 75 \<mapsto> 19, 107 \<mapsto> 19, 77 \<mapsto> 20, 109 \<mapsto> 20, 78 \<mapsto> 21, 110 \<mapsto> 21, 80 \<mapsto> 22, 112 \<mapsto> 22, 81 \<mapsto> 23, 113 \<mapsto> 23, 82 \<mapsto> 24, 114 \<mapsto> 24, 83 \<mapsto> 25, 115 \<mapsto> 25, 84 \<mapsto> 26, 116 \<mapsto> 26, 86 \<mapsto> 27, 118 \<mapsto> 27, 87 \<mapsto> 28, 119 \<mapsto> 28, 88 \<mapsto> 29, 120 \<mapsto> 29, 89 \<mapsto> 30, 121 \<mapsto> 30, 90 \<mapsto> 31, 122 \<mapsto> 31)\<rparr>"
  unfolding ALPHABET_codes createAlphabetLookups_def upt_BASE replicate_BASE
  by (simp add: createAlphabetLookups_step_def list_update_Cons_numeral)

lemma default_alphabet: "alphabetSymbol base32Crockford = ALPHABET"
  by (simp add: base32Crockford_def new_codec_def Let_def)

lemma default_alphabetLookup:
  "alphabetLookupSymbol base32Crockford = Map.empty(48 \<mapsto> 0, 79 \<mapsto> 0, 111 \<mapsto> 0, 49 \<mapsto> 1, 73 \<mapsto> 1, 105 \<mapsto> 1, 76 \<mapsto> 1, 108 \<mapsto> 1, 50 \<mapsto> 2, 51 \<mapsto> 3, 52 \<mapsto> 4, 53 \<mapsto> 5, 54 \<mapsto> 6, 55 \<mapsto> 7, 56 \<mapsto> 8, 57 \<mapsto> 9, 65 \<mapsto> 10, 97 \<mapsto> 10, 66 \<mapsto> 11, 98 \<mapsto> 11, 67 \<mapsto> 12, 99 \<mapsto> 12, 68 \<mapsto> 13, 100 \<mapsto> 13, 69 \<mapsto> 14, 101 \<mapsto> 14, 70 \<mapsto> 15, 102 \<mapsto> 15, 71 \<mapsto> 16, 103 \<mapsto> 16, 72 \<mapsto> 17, 104 \<mapsto> 17, 74 \<mapsto> 18, 106 \<mapsto> 18, 75 \<mapsto> 19, 107 \<mapsto> 19, 77 \<mapsto> 20, 109 \<mapsto> 20, 78 \<mapsto> 21, 110 \<mapsto> 21, 80 \<mapsto> 22, 112 \<mapsto> 22, 81 \<mapsto> 23, 113 \<mapsto> 23, 82 \<mapsto> 24, 114 \<mapsto> 24, 83 \<mapsto> 25, 115 \<mapsto> 25, 84 \<mapsto> 26, 116 \<mapsto> 26, 86 \<mapsto> 27, 118 \<mapsto> 27, 87 \<mapsto> 28, 119 \<mapsto> 28, 88 \<mapsto> 29, 120 \<mapsto> 29, 89 \<mapsto> 30, 121 \<mapsto> 30, 90 \<mapsto> 31, 122 \<mapsto> 31)"
  by (simp add: base32Crockford_def new_codec_def createAlphabetLookups_ALPHABET)

lemma default_baseMap:
  "baseMapSymbol base32Crockford = [48, 49, 50, 51, 52, 53, 54, 55, 56, 57, 65, 66, 67, 68, 69, 70, 71, 72, 74, 75, 77, 78, 80, 81, 82, 83, 84, 86, 87, 88, 89, 90]"
  by (simp add: base32Crockford_def new_codec_def createAlphabetLookups_ALPHABET)

lemma default_baseMapLookup:
  "baseMapLookupSymbol base32Crockford = Map.empty(48 \<mapsto> 0, 79 \<mapsto> 0, 111 \<mapsto> 0, 49 \<mapsto> 1, 73 \<mapsto> 1, 105 \<mapsto> 1, 76 \<mapsto> 1, 108 \<mapsto> 1, 50 \<mapsto> 2, 51 \<mapsto> 3, 52 \<mapsto> 4, 53 \<mapsto> 5, 54 \<mapsto> 6, 55 \<mapsto> 7, 56 \<mapsto> 8, 57 \<mapsto> 9, 65 \<mapsto> 10, 97 \<mapsto> 10, 66 \<mapsto> 11, 98 \<mapsto> 11, 67 \<mapsto> 12, 99 \<mapsto> 12, 68 \<mapsto> 13, 100 \<mapsto> 13, 69 \<mapsto> 14, 101 \<mapsto> 14, 70 \<mapsto> 15, 102 \<mapsto> 15, 71 \<mapsto> 16, 103 \<mapsto> 16, 72 \<mapsto> 17, 104 \<mapsto> 17, 74 \<mapsto> 18, 106 \<mapsto> 18, 75 \<mapsto> 19, 107 \<mapsto> 19, 77 \<mapsto> 20, 109 \<mapsto> 20, 78 \<mapsto> 21, 110 \<mapsto> 21, 80 \<mapsto> 22, 112 \<mapsto> 22, 81 \<mapsto> 23, 113 \<mapsto> 23, 82 \<mapsto> 24, 114 \<mapsto> 24, 83 \<mapsto> 25, 115 \<mapsto> 25, 84 \<mapsto> 26, 116 \<mapsto> 26, 86 \<mapsto> 27, 118 \<mapsto> 27, 87 \<mapsto> 28, 119 \<mapsto> 28, 88 \<mapsto> 29, 120 \<mapsto> 29, 89 \<mapsto> 30, 121 \<mapsto> 30, 90 \<mapsto> 31, 122 \<mapsto> 31)"
  by (simp add: base32Crockford_def new_codec_def createAlphabetLookups_ALPHABET)

lemmas decodeInt_eval = decodeInt_def startsNegative_def utf16_def NEGATIVE_CHAR_def
  accumulate_def NumberMAX_SAFE_INTEGER_def BASE_def default_alphabetLookup

lemmas decode_eval = decodeFromString_def decodeFromStringSymbol_def decode_def
  toStartIndex_def toEndIndex_def sliceIndex_def utf16_def BITS_PER_CHAR_def
  default_alphabetLookup default_baseMapLookup

section \<open>Alias acceptance of the default alphabet\<close>

text \<open>
  Claim C5. With the default alphabet, \<open>decodeInt\<close> of \<open>"o"\<close>, \<open>"O"\<close> and \<open>"0"\<close> is 0, and of
  \<open>"i"\<close>, \<open>"I"\<close>, \<open>"l"\<close>, \<open>"L"\<close> and \<open>"1"\<close> is 1; and for every letter of the alphabet (a
  symbol whose code exceeds 64, at index \<open>i\<close>), the lowercase form (the code plus 32) and
  the canonical uppercase symbol both look up to the value \<open>i\<close>, in the character lookup
  and in the byte lookup.
\<close>

theorem alias_acceptance:
  "decodeInt base32Crockford (utf16 ''o'') = Inr (Integer 0) \<and>
   decodeInt base32Crockford (utf16 ''O'') = Inr (Integer 0) \<and>
   decodeInt base32Crockford (utf16 ''0'') = Inr (Integer 0) \<and>
   decodeInt base32Crockford (utf16 ''i'') = Inr (Integer 1) \<and>
   decodeInt base32Crockford (utf16 ''I'') = Inr (Integer 1) \<and>
   decodeInt base32Crockford (utf16 ''l'') = Inr (Integer 1) \<and>
   decodeInt base32Crockford (utf16 ''L'') = Inr (Integer 1) \<and>
   decodeInt base32Crockford (utf16 ''1'') = Inr (Integer 1) \<and>
   (\<forall>i<BASE. 64 < ALPHABET ! i \<longrightarrow>
      alphabetLookupSymbol base32Crockford (ALPHABET ! i + 32) = Some i \<and>
      alphabetLookupSymbol base32Crockford (ALPHABET ! i) = Some i \<and>
      baseMapLookupSymbol base32Crockford (ALPHABET ! i + 32) = Some i \<and>
      baseMapLookupSymbol base32Crockford (ALPHABET ! i) = Some i)"
proof -
  have letters: "\<forall>i\<in>set [0..<BASE]. 64 < ALPHABET ! i \<longrightarrow>
      alphabetLookupSymbol base32Crockford (ALPHABET ! i + 32) = Some i \<and>
      alphabetLookupSymbol base32Crockford (ALPHABET ! i) = Some i \<and>
      baseMapLookupSymbol base32Crockford (ALPHABET ! i + 32) = Some i \<and>
      baseMapLookupSymbol base32Crockford (ALPHABET ! i) = Some i"
    unfolding upt_BASE ALPHABET_codes default_alphabetLookup default_baseMapLookup by simp
  have singles: "decodeInt base32Crockford (utf16 ''o'') = Inr (Integer 0)"
    "decodeInt base32Crockford (utf16 ''O'') = Inr (Integer 0)"
    "decodeInt base32Crockford (utf16 ''0'') = Inr (Integer 0)"
    "decodeInt base32Crockford (utf16 ''i'') = Inr (Integer 1)"
    "decodeInt base32Crockford (utf16 ''I'') = Inr (Integer 1)"
    "decodeInt base32Crockford (utf16 ''l'') = Inr (Integer 1)"
    "decodeInt base32Crockford (utf16 ''L'') = Inr (Integer 1)"
    "decodeInt base32Crockford (utf16 ''1'') = Inr (Integer 1)"
    by (simp_all add: decodeInt_eval)
  from letters have "\<forall>i<BASE. 64 < ALPHABET ! i \<longrightarrow>
      alphabetLookupSymbol base32Crockford (ALPHABET ! i + 32) = Some i \<and>
      alphabetLookupSymbol base32Crockford (ALPHABET ! i) = Some i \<and>
      baseMapLookupSymbol base32Crockford (ALPHABET ! i + 32) = Some i \<and>
      baseMapLookupSymbol base32Crockford (ALPHABET ! i) = Some i"
    by simp
  with singles show ?thesis by blast
qed

theorem alias_acceptance_witness:
  "(10::nat) < BASE \<and> 64 < ALPHABET ! 10 \<and>
   alphabetLookupSymbol base32Crockford (of_char (CHR ''a'')) = Some 10 \<and>
   alphabetLookupSymbol base32Crockford (of_char (CHR ''A'')) = Some 10"
proof -
  have "\<forall>i<BASE. 64 < ALPHABET ! i \<longrightarrow>
      alphabetLookupSymbol base32Crockford (ALPHABET ! i + 32) = Some i \<and>
      alphabetLookupSymbol base32Crockford (ALPHABET ! i) = Some i \<and>
      baseMapLookupSymbol base32Crockford (ALPHABET ! i + 32) = Some i \<and>
      baseMapLookupSymbol base32Crockford (ALPHABET ! i) = Some i"
    using alias_acceptance by (elim conjE)
  from this [rule_format, of 10] show ?thesis
    by (simp add: BASE_def ALPHABET_codes)
qed

section \<open>The partial byte after the decode loop\<close>

text \<open>
  Claim C4. The claim has the decoder return a last byte equal to \<open>carry\<close> whenever its
  loop ends with \<open>shift \<noteq> 8\<close> and \<open>carry \<noteq> 0\<close>. On the lone symbol \<open>"Z"\<close> (value 31) the
  loop ends with \<open>shift = 3\<close> and \<open>carry = 248\<close>, the buffer was allocated with
  \<open>floor (5 * 1 / 8) = 0\<close> bytes, and the write \<open>result[index] = carry\<close> falls outside it:
  both decoders return the empty array.
\<close>

theorem lone_symbol_partial_byte_dropped:
  "decodeFromString_loop (alphabetLookupSymbol base32Crockford) (utf16 ''Z'') [0..<1] ([], 8, 0, 0)
     = Inr ([], 3, 248, 0) \<and>
   decodeFromString base32Crockford (utf16 ''Z'') None None = Inr [] \<and>
   decode base32Crockford [0x5a] None None = Inr []"
  by (simp add: decode_eval)

section \<open>Lemmas on the alphabet validator\<close>

lemma toAlphabet_loop_Inr:
  "toAlphabet_loop v is u = Inr () \<longleftrightarrow>
     (\<forall>i\<in>set is. alphabetLookupSymbol base32Crockford (v ! i) \<noteq> None) \<and>
     distinct (map ((!) v) is) \<and> (\<forall>i\<in>set is. u (v ! i) = None)"
proof (induction "is" arbitrary: u)
  case Nil
  show ?case by simp
next
  case (Cons i "is")
  have upd: "(\<forall>j\<in>set is. (u(v ! i \<mapsto> i)) (v ! j) = None) \<longleftrightarrow>
             v ! i \<notin> (!) v ` set is \<and> (\<forall>j\<in>set is. u (v ! j) = None)"
    by (auto simp: image_iff)
  show ?case
  proof (cases "alphabetLookupSymbol base32Crockford (v ! i) = None \<or> u (v ! i) \<noteq> None")
    case True
    then show ?thesis by (auto simp: Let_def)
  next
    case False
    then have "toAlphabet_loop v (i # is) u = Inr () \<longleftrightarrow>
               toAlphabet_loop v is (u(v ! i \<mapsto> i)) = Inr ()"
      by (auto simp: Let_def)
    also have "\<dots> \<longleftrightarrow> (\<forall>j\<in>set is. alphabetLookupSymbol base32Crockford (v ! j) \<noteq> None) \<and>
        distinct (map ((!) v) is) \<and> (\<forall>j\<in>set is. (u(v ! i \<mapsto> i)) (v ! j) = None)"
      by (rule Cons.IH)
    also have "\<dots> \<longleftrightarrow> (\<forall>j\<in>set (i # is). alphabetLookupSymbol base32Crockford (v ! j) \<noteq> None) \<and>
        distinct (map ((!) v) (i # is)) \<and> (\<forall>j\<in>set (i # is). u (v ! j) = None)"
      unfolding upd using False by auto
    finally show ?thesis .
  qed
qed


lemma isAlphabet_loop_iff:
  "isAlphabet_loop v is u \<longleftrightarrow> toAlphabet_loop v is u = Inr ()"
  by (induction "is" arbitrary: u) (simp_all add: Let_def)

lemma toAlphabet_loop_error:
  "toAlphabet_loop v is u = Inl e \<Longrightarrow> kind e = SyntaxError"
  by (induction "is" arbitrary: u) (auto simp: Let_def split: if_splits)

lemma toAlphabet_loop_whole:
  assumes "length s = BASE"
  shows "toAlphabet_loop s [0..<BASE] Map.empty = Inr () \<longleftrightarrow>
     set s \<subseteq> dom (alphabetLookupSymbol base32Crockford) \<and> distinct s"
proof -
  have "map ((!) s) [0..<BASE] = s"
    using map_nth [of s] assms by simp
  moreover have "(\<forall>i\<in>set [0..<BASE]. alphabetLookupSymbol base32Crockford (s ! i) \<noteq> None) \<longleftrightarrow>
      set s \<subseteq> dom (alphabetLookupSymbol base32Crockford)"
  proof -
    have "(\<forall>i\<in>set [0..<BASE]. alphabetLookupSymbol base32Crockford (s ! i) \<noteq> None) \<longleftrightarrow>
        (\<forall>c\<in>set s. alphabetLookupSymbol base32Crockford c \<noteq> None)"
      using assms by (auto simp: all_set_conv_all_nth)
    then show ?thesis by (auto simp: subset_iff)
  qed
  ultimately show ?thesis
    by (simp add: toAlphabet_loop_Inr)
qed

lemma Base32Crockford_Inr:
  "Base32Crockford (Some a) = Inr this \<longleftrightarrow>
     this = new_codec a \<and> length a = BASE \<and> distinct a \<and>
     set a \<subseteq> dom (alphabetLookupSymbol base32Crockford)"
proof (cases "length a = BASE")
  case False
  then show ?thesis by (simp add: Base32Crockford_def toAlphabet_def)
next
  case True
  show ?thesis
  proof (cases "toAlphabet_loop a [0..<BASE] Map.empty")
    case (Inl e)
    with True toAlphabet_loop_whole [of a] show ?thesis
      by (auto simp: Base32Crockford_def toAlphabet_def)
  next
    case (Inr u)
    with True toAlphabet_loop_whole [of a] show ?thesis
      by (auto simp: Base32Crockford_def toAlphabet_def)
  qed
qed

lemma Base32Crockford_Inl:
  "Base32Crockford (Some a) = Inl e \<Longrightarrow>
     kind e = (if length a = BASE then SyntaxError else RangeError)"
  by (auto simp: Base32Crockford_def toAlphabet_def split: sum.splits if_splits
           dest: toAlphabet_loop_error)

lemma isAlphabet_iff:
  "isAlphabet a \<longleftrightarrow>
     length a = BASE \<and> distinct a \<and> set a \<subseteq> dom (alphabetLookupSymbol base32Crockford)"
  using toAlphabet_loop_whole [of a] by (auto simp: isAlphabet_def isAlphabet_loop_iff)

lemma default_lookup_dom:
  "dom (alphabetLookupSymbol base32Crockford) =
     set (utf16 ''0123456789ABCDEFGHIJKLMNOPQRSTVWXYZabcdefghijklmnopqrstvwxyz'')"
  unfolding default_alphabetLookup utf16_def by (simp add: insert_commute) 

section \<open>Lemmas on the keys of the lookups\<close>

lemma lookup_step_dom:
  "dom (lookup (createAlphabetLookups_step a t i)) = dom (lookup t) \<union> keys_of (a ! i)"
  by (auto simp: createAlphabetLookups_step_def keys_of_def Let_def)

lemma lookup_foldl_dom:
  "dom (lookup (foldl (createAlphabetLookups_step a) t is)) =
     dom (lookup t) \<union> (\<Union>i\<in>set is. keys_of (a ! i))"
  by (induction "is" arbitrary: t) (auto simp: lookup_step_dom)

lemma set_conv_nth_upt: "length a = n \<Longrightarrow> set a = (!) a ` set [0..<n]"
  using map_nth [of a] set_map [of "(!) a" "[0..<length a]"] by simp

lemma UN_nth_upt: "length a = n \<Longrightarrow> (\<Union>i\<in>set [0..<n]. f (a ! i)) = (\<Union>c\<in>set a. f c)"
  by (simp add: set_conv_nth_upt [of a n] del: set_upt)

lemma createAlphabetLookups_dom:
  assumes "length a = BASE"
  shows "dom (lookup (createAlphabetLookups a)) = (\<Union>c\<in>set a. keys_of c)"
proof -
  have "(\<Union>i\<in>set [0..<BASE]. keys_of (a ! i)) = (\<Union>c\<in>set a. keys_of c)"
    using assms by (rule UN_nth_upt)
  then show ?thesis
    by (simp add: createAlphabetLookups_def lookup_foldl_dom del: set_upt)
qed

lemma baseMapLookup_step_dom:
  "a ! i < 2 ^ 16 - 32 \<Longrightarrow>
   dom (baseMapLookup (createAlphabetLookups_step a t i)) = dom (baseMapLookup t) \<union> keys_of (a ! i)"
  by (auto simp: createAlphabetLookups_step_def keys_of_def Let_def)

lemma baseMapLookup_foldl_dom:
  "\<forall>i\<in>set is. a ! i < 2 ^ 16 - 32 \<Longrightarrow>
   dom (baseMapLookup (foldl (createAlphabetLookups_step a) t is)) =
     dom (baseMapLookup t) \<union> (\<Union>i\<in>set is. keys_of (a ! i))"
  by (induction "is" arbitrary: t) (auto simp: baseMapLookup_step_dom)

lemma createAlphabetLookups_baseMapLookup_dom:
  assumes "length a = BASE" and "\<forall>c\<in>set a. c < 2 ^ 16 - 32"
  shows "dom (baseMapLookup (createAlphabetLookups a)) = (\<Union>c\<in>set a. keys_of c)"
proof -
  have "(\<Union>i\<in>set [0..<BASE]. keys_of (a ! i)) = (\<Union>c\<in>set a. keys_of c)"
    using assms(1) by (rule UN_nth_upt)
  moreover have "\<forall>i\<in>set [0..<BASE]. a ! i < 2 ^ 16 - 32"
    using assms by (simp add: all_set_conv_all_nth)
  ultimately show ?thesis
    by (simp add: createAlphabetLookups_def baseMapLookup_foldl_dom del: set_upt)
qed

lemma default_lookup_bound:
  "alphabetLookupSymbol base32Crockford c \<noteq> None \<Longrightarrow> c \<le> 122"
  unfolding default_alphabetLookup by (auto split: if_splits)

lemma reversed_lookup:
  "lookup (createAlphabetLookups (utf16 ''ZYXWVTSRQPNMKJHGFEDCBA9876543210'')) = Map.empty(90 \<mapsto> 0, 122 \<mapsto> 0, 89 \<mapsto> 1, 121 \<mapsto> 1, 88 \<mapsto> 2, 120 \<mapsto> 2, 87 \<mapsto> 3, 119 \<mapsto> 3, 86 \<mapsto> 4, 118 \<mapsto> 4, 84 \<mapsto> 5, 116 \<mapsto> 5, 83 \<mapsto> 6, 115 \<mapsto> 6, 82 \<mapsto> 7, 114 \<mapsto> 7, 81 \<mapsto> 8, 113 \<mapsto> 8, 80 \<mapsto> 9, 112 \<mapsto> 9, 78 \<mapsto> 10, 110 \<mapsto> 10, 77 \<mapsto> 11, 109 \<mapsto> 11, 75 \<mapsto> 12, 107 \<mapsto> 12, 74 \<mapsto> 13, 106 \<mapsto> 13, 72 \<mapsto> 14, 104 \<mapsto> 14, 71 \<mapsto> 15, 103 \<mapsto> 15, 70 \<mapsto> 16, 102 \<mapsto> 16, 69 \<mapsto> 17, 101 \<mapsto> 17, 68 \<mapsto> 18, 100 \<mapsto> 18, 67 \<mapsto> 19, 99 \<mapsto> 19, 66 \<mapsto> 20, 98 \<mapsto> 20, 65 \<mapsto> 21, 97 \<mapsto> 21, 57 \<mapsto> 22, 56 \<mapsto> 23, 55 \<mapsto> 24, 54 \<mapsto> 25, 53 \<mapsto> 26, 52 \<mapsto> 27, 51 \<mapsto> 28, 50 \<mapsto> 29, 49 \<mapsto> 30, 73 \<mapsto> 30, 105 \<mapsto> 30, 76 \<mapsto> 30, 108 \<mapsto> 30, 48 \<mapsto> 31, 79 \<mapsto> 31, 111 \<mapsto> 31)"
  unfolding createAlphabetLookups_def upt_BASE replicate_BASE utf16_def
  by (simp add: createAlphabetLookups_step_def)

section \<open>Construction and the alphabet validator\<close>

text \<open>
  Claim C8, as amended. Construction with a supplied alphabet fails when the string is
  not exactly 32 characters long (with a \<open>RangeError\<close>), when the same character occurs in
  it twice, or when one of its characters is not a key of the default instance's
  lookup (with a \<open>SyntaxError\<close>). Characters are compared as they are written.
\<close>

theorem alphabet_validation:
  assumes "length a \<noteq> BASE \<or> \<not> distinct a \<or>
           \<not> set a \<subseteq> dom (alphabetLookupSymbol base32Crockford)"
  shows "\<exists>e. Base32Crockford (Some a) = Inl e \<and>
             kind e = (if length a = BASE then SyntaxError else RangeError)"
proof (cases "Base32Crockford (Some a)")
  case (Inl e)
  then show ?thesis using Base32Crockford_Inl [of a e] by simp
next
  case (Inr this)
  with assms show ?thesis by (simp add: Base32Crockford_Inr)
qed

theorem alphabet_validation_witness:
  "length (utf16 ''0123456789ABCDEFGHJKMNPQRSTVWXY'') \<noteq> BASE \<and>
   (\<exists>e. Base32Crockford (Some (utf16 ''0123456789ABCDEFGHJKMNPQRSTVWXY'')) = Inl e \<and>
        kind e = RangeError)"
  using alphabet_validation [of "utf16 ''0123456789ABCDEFGHJKMNPQRSTVWXY''"]
  by (simp add: utf16_def BASE_def)

text \<open>
  The claim as stated fails: an alphabet that holds both \<open>0\<close> and \<open>O\<close>, which the default
  lookup sends to the same value, is accepted, and so is an alphabet of lowercase
  letters.
\<close>

theorem alphabet_validation_counterexample:
  "alphabetLookupSymbol base32Crockford (of_char (CHR ''O'')) =
     alphabetLookupSymbol base32Crockford (of_char (CHR ''0'')) \<and>
   Base32Crockford (Some (utf16 ''O123456789ABCDEFGHJKMNPQRSTVWXY0'')) =
     Inr (new_codec (utf16 ''O123456789ABCDEFGHJKMNPQRSTVWXY0'')) \<and>
   Base32Crockford (Some (utf16 ''0123456789abcdefghjkmnpqrstvwxyz'')) =
     Inr (new_codec (utf16 ''0123456789abcdefghjkmnpqrstvwxyz''))"
  by (simp add: Base32Crockford_Inr default_alphabetLookup utf16_def BASE_def)

text \<open>
  Claim C10. The keys of the default lookup are the ten digits, the uppercase letters
  but \<open>U\<close> and the lowercase letters but \<open>u\<close>; a candidate of 32 characters that
  contains a character outside this set makes the constructor throw (a \<open>SyntaxError\<close>)
  and \<open>isAlphabet\<close> return false, whether or not its characters are distinct.
\<close>

theorem custom_alphabet_characters:
  "dom (alphabetLookupSymbol base32Crockford) =
     set (utf16 ''0123456789ABCDEFGHIJKLMNOPQRSTVWXYZabcdefghijklmnopqrstvwxyz'') \<and>
   (\<forall>a. length a = BASE \<and> \<not> set a \<subseteq> dom (alphabetLookupSymbol base32Crockford) \<longrightarrow>
        (\<exists>e. Base32Crockford (Some a) = Inl e \<and> kind e = SyntaxError) \<and> \<not> isAlphabet a)"
proof (intro conjI allI impI)
  show "dom (alphabetLookupSymbol base32Crockford) =
     set (utf16 ''0123456789ABCDEFGHIJKLMNOPQRSTVWXYZabcdefghijklmnopqrstvwxyz'')"
    by (rule default_lookup_dom)
next
  fix a
  assume a: "length a = BASE \<and> \<not> set a \<subseteq> dom (alphabetLookupSymbol base32Crockford)"
  show "\<exists>e. Base32Crockford (Some a) = Inl e \<and> kind e = SyntaxError"
  proof (cases "Base32Crockford (Some a)")
    case (Inl e)
    then show ?thesis using Base32Crockford_Inl [of a e] a by simp
  next
    case (Inr this)
    with a show ?thesis by (simp add: Base32Crockford_Inr)
  qed
  from a show "\<not> isAlphabet a" by (simp add: isAlphabet_iff)
qed

theorem custom_alphabet_characters_witness:
  "length (utf16 ''0123456789ABCDEFGHJKMNPQRSTVWXYU'') = BASE \<and>
   distinct (utf16 ''0123456789ABCDEFGHJKMNPQRSTVWXYU'') \<and>
   of_char (CHR ''U'') \<notin> dom (alphabetLookupSymbol base32Crockford) \<and>
   of_char (CHR ''u'') \<notin> dom (alphabetLookupSymbol base32Crockford) \<and>
   of_char (CHR ''@'') \<notin> dom (alphabetLookupSymbol base32Crockford) \<and>
   (\<exists>e. Base32Crockford (Some (utf16 ''0123456789ABCDEFGHJKMNPQRSTVWXYU'')) = Inl e \<and>
        kind e = SyntaxError) \<and>
   \<not> isAlphabet (utf16 ''0123456789ABCDEFGHJKMNPQRSTVWXYU'')"
proof -
  have U: "of_char (CHR ''U'') \<notin> dom (alphabetLookupSymbol base32Crockford)"
    and u: "of_char (CHR ''u'') \<notin> dom (alphabetLookupSymbol base32Crockford)"
    and at: "of_char (CHR ''@'') \<notin> dom (alphabetLookupSymbol base32Crockford)"
    by (simp_all add: default_alphabetLookup)
  have len: "length (utf16 ''0123456789ABCDEFGHJKMNPQRSTVWXYU'') = BASE"
    and dist: "distinct (utf16 ''0123456789ABCDEFGHJKMNPQRSTVWXYU'')"
    by (simp_all add: utf16_def BASE_def)
  have "of_char (CHR ''U'') \<in> set (utf16 ''0123456789ABCDEFGHJKMNPQRSTVWXYU'')"
    by (simp add: utf16_def)
  with U have "\<not> set (utf16 ''0123456789ABCDEFGHJKMNPQRSTVWXYU'')
                  \<subseteq> dom (alphabetLookupSymbol base32Crockford)"
    by blast
  with len custom_alphabet_characters U u at dist show ?thesis
    by blast
qed

section \<open>The aliases of a custom alphabet\<close>

text \<open>
  Claim C6, as amended. For every alphabet accepted at construction, custom or not,
  the keys of the character lookup are the 32 canonical symbols, \<open>O\<close> and \<open>o\<close> when the
  alphabet contains \<open>0\<close>, \<open>I\<close>, \<open>i\<close>, \<open>L\<close> and \<open>l\<close> when it contains \<open>1\<close>, and for every
  symbol of code above 64 the character 32 codes further (the lowercase counterpart of
  an uppercase letter); the byte lookup has the same keys. A custom alphabet gets the
  aliases that the default alphabet gets.
\<close>

theorem alias_keys_of_accepted_alphabet:
  assumes "Base32Crockford (Some a) = Inr cod"
  shows "dom (alphabetLookupSymbol cod) =
           set a
           \<union> (if of_char (CHR ''0'') \<in> set a then {of_char (CHR ''O''), of_char (CHR ''o'')} else {})
           \<union> (if of_char (CHR ''1'') \<in> set a
               then {of_char (CHR ''I''), of_char (CHR ''i''), of_char (CHR ''L''), of_char (CHR ''l'')}
               else {})
           \<union> {c + 32 |c. c \<in> set a \<and> c > 64} \<and>
         dom (baseMapLookupSymbol cod) = dom (alphabetLookupSymbol cod)"
proof -
  from assms have cod: "cod = new_codec a" and len: "length a = BASE"
    and sub: "set a \<subseteq> dom (alphabetLookupSymbol base32Crockford)"
    by (simp_all add: Base32Crockford_Inr)
  have bound: "c \<le> 122" if "c \<in> set a" for c
    using that sub default_lookup_bound [of c] by auto
  then have small: "\<forall>c\<in>set a. c < 2 ^ 16 - 32"
    by fastforce
  have keys: "keys_of c =
      {c} \<union> (if c = of_char (CHR ''0'') then {of_char (CHR ''O''), of_char (CHR ''o'')} else {})
          \<union> (if c = of_char (CHR ''1'')
              then {of_char (CHR ''I''), of_char (CHR ''i''), of_char (CHR ''L''), of_char (CHR ''l'')}
              else {})
          \<union> (if c > 64 then {c + 32} else {})" if "c \<in> set a" for c
    using bound [OF that] by (auto simp: keys_of_def)
  have "(\<Union>c\<in>set a. keys_of c) =
           set a
           \<union> (if of_char (CHR ''0'') \<in> set a then {of_char (CHR ''O''), of_char (CHR ''o'')} else {})
           \<union> (if of_char (CHR ''1'') \<in> set a
               then {of_char (CHR ''I''), of_char (CHR ''i''), of_char (CHR ''L''), of_char (CHR ''l'')}
               else {})
           \<union> {c + 32 |c. c \<in> set a \<and> c > 64}"
    by (auto simp: keys split: if_splits)
  with cod len small show ?thesis
    by (simp add: new_codec_def Let_def createAlphabetLookups_dom
          createAlphabetLookups_baseMapLookup_dom)
qed

theorem alias_keys_of_accepted_alphabet_witness:
  "Base32Crockford (Some (utf16 ''ZYXWVTSRQPNMKJHGFEDCBA9876543210'')) =
     Inr (new_codec (utf16 ''ZYXWVTSRQPNMKJHGFEDCBA9876543210'')) \<and>
   of_char (CHR ''o'') \<in> dom (alphabetLookupSymbol (new_codec (utf16 ''ZYXWVTSRQPNMKJHGFEDCBA9876543210'')))"
proof -
  have ok: "Base32Crockford (Some (utf16 ''ZYXWVTSRQPNMKJHGFEDCBA9876543210'')) =
     Inr (new_codec (utf16 ''ZYXWVTSRQPNMKJHGFEDCBA9876543210''))"
    by (simp add: Base32Crockford_Inr default_alphabetLookup utf16_def BASE_def)
  from alias_keys_of_accepted_alphabet [OF ok] ok show ?thesis
    by (simp add: utf16_def)
qed

text \<open>
  The claim as stated fails on the default alphabet reversed, a custom alphabet that
  is accepted: \<open>O\<close> and \<open>o\<close>, not symbols of it, decode like its symbol \<open>0\<close> (value 31),
  and \<open>I\<close>, \<open>i\<close>, \<open>L\<close>, \<open>l\<close> like its symbol \<open>1\<close> (value 30).
\<close>

theorem custom_alphabet_aliases_counterexample:
  "utf16 ''ZYXWVTSRQPNMKJHGFEDCBA9876543210'' \<noteq> ALPHABET \<and>
   Base32Crockford (Some (utf16 ''ZYXWVTSRQPNMKJHGFEDCBA9876543210'')) =
     Inr (new_codec (utf16 ''ZYXWVTSRQPNMKJHGFEDCBA9876543210'')) \<and>
   of_char (CHR ''O'') \<notin> set (utf16 ''ZYXWVTSRQPNMKJHGFEDCBA9876543210'') \<and>
   of_char (CHR ''I'') \<notin> set (utf16 ''ZYXWVTSRQPNMKJHGFEDCBA9876543210'') \<and>
   map (alphabetLookupSymbol (new_codec (utf16 ''ZYXWVTSRQPNMKJHGFEDCBA9876543210'')))
       (utf16 ''0Oo1IiLl'') =
     [Some 31, Some 31, Some 31, Some 30, Some 30, Some 30, Some 30, Some 30]"
proof -
  have "Base32Crockford (Some (utf16 ''ZYXWVTSRQPNMKJHGFEDCBA9876543210'')) =
     Inr (new_codec (utf16 ''ZYXWVTSRQPNMKJHGFEDCBA9876543210''))"
    by (simp add: Base32Crockford_Inr default_alphabetLookup utf16_def BASE_def)
  moreover have "map (alphabetLookupSymbol (new_codec (utf16 ''ZYXWVTSRQPNMKJHGFEDCBA9876543210'')))
       (utf16 ''0Oo1IiLl'') =
     [Some 31, Some 31, Some 31, Some 30, Some 30, Some 30, Some 30, Some 30]"
    by (simp add: new_codec_def Let_def reversed_lookup) (simp add: utf16_def)
  ultimately show ?thesis
    by (simp add: utf16_def ALPHABET_def)
qed

section \<open>Lemmas on the first invalid symbol\<close>

lemma decodeFromString_loop_first_invalid:
  "si \<le> j \<Longrightarrow> j < ei \<Longrightarrow> lk (s ! j) = None \<Longrightarrow>
   (\<forall>k. si \<le> k \<and> k < j \<longrightarrow> lk (s ! k) \<noteq> None) \<Longrightarrow>
   decodeFromString_loop lk s [si..<ei] st = Inl (InvalidCharacter (s ! j) j)"
proof (induction "j - si" arbitrary: si st)
  case 0
  then have "si = j" by simp
  with 0 show ?case by (simp add: upt_conv_Cons)
next
  case (Suc d)
  then have lt: "si < j" and "si < ei" by simp_all
  then have upt: "[si..<ei] = si # [Suc si..<ei]" by (simp add: upt_conv_Cons)
  from Suc.prems lt obtain v where v: "lk (s ! si) = Some v" by auto
  have "decodeFromString_loop lk s [Suc si..<ei] (decode_step v st) = Inl (InvalidCharacter (s ! j) j)"
    using Suc.hyps(2) Suc.prems lt by (intro Suc.hyps(1)) auto
  with v upt show ?case by simp
qed

lemma decode_loop_first_invalid:
  "si \<le> j \<Longrightarrow> j < ei \<Longrightarrow> lk (unat (s ! j)) = None \<Longrightarrow>
   (\<forall>k. si \<le> k \<and> k < j \<longrightarrow> lk (unat (s ! k)) \<noteq> None) \<Longrightarrow>
   decode_loop lk s [si..<ei] st = Inl (InvalidByte (s ! j) j)"
proof (induction "j - si" arbitrary: si st)
  case 0
  then have "si = j" by simp
  with 0 show ?case by (simp add: upt_conv_Cons)
next
  case (Suc d)
  then have lt: "si < j" and "si < ei" by simp_all
  then have upt: "[si..<ei] = si # [Suc si..<ei]" by (simp add: upt_conv_Cons)
  from Suc.prems lt obtain v where v: "lk (unat (s ! si)) = Some v" by auto
  have "decode_loop lk s [Suc si..<ei] (decode_step v st) = Inl (InvalidByte (s ! j) j)"
    using Suc.hyps(2) Suc.prems lt by (intro Suc.hyps(1)) auto
  with v upt show ?case by simp
qed

lemma first_invalid:
  fixes si i :: nat
  assumes "si \<le> i" and "P i"
  obtains j where "si \<le> j" and "j \<le> i" and "P j" and "\<forall>k. si \<le> k \<and> k < j \<longrightarrow> \<not> P k"
proof -
  from assms have "\<exists>n. si \<le> n \<and> P n" by blast
  then obtain j where j: "si \<le> j \<and> P j" and least: "\<forall>m<j. \<not> (si \<le> m \<and> P m)"
    using exists_least_iff [of "\<lambda>n. si \<le> n \<and> P n"] by blast
  from least assms have "j \<le> i" by (meson not_le)
  with j least that show thesis by blast
qed

section \<open>Rejection of invalid input\<close>

text \<open>
  Claim C9. When the effective range of a decode input holds, at some index \<open>i\<close>, a
  character (or byte) that is not a key of the codec's lookup, decoding fails with the
  \<open>SyntaxError\<close> that names the first such character (or byte) of the range and its
  index in the input; the value returned is the error alone, with no array.
\<close>

theorem invalid_symbol_rejected:
  "(toStartIndex (length string) start \<le> i \<and> i < toEndIndex (length string) end \<and>
    alphabetLookupSymbol cod (string ! i) = None \<longrightarrow>
      (\<exists>j. toStartIndex (length string) start \<le> j \<and> j \<le> i \<and>
           alphabetLookupSymbol cod (string ! j) = None \<and>
           (\<forall>k. toStartIndex (length string) start \<le> k \<and> k < j \<longrightarrow>
                alphabetLookupSymbol cod (string ! k) \<noteq> None) \<and>
           decodeFromString cod string start end = Inl (InvalidCharacter (string ! j) j) \<and>
           kind (InvalidCharacter (string ! j) j) = SyntaxError)) \<and>
   (toStartIndex (length input) start \<le> i \<and> i < toEndIndex (length input) end \<and>
    baseMapLookupSymbol cod (unat (input ! i)) = None \<longrightarrow>
      (\<exists>j. toStartIndex (length input) start \<le> j \<and> j \<le> i \<and>
           baseMapLookupSymbol cod (unat (input ! j)) = None \<and>
           (\<forall>k. toStartIndex (length input) start \<le> k \<and> k < j \<longrightarrow>
                baseMapLookupSymbol cod (unat (input ! k)) \<noteq> None) \<and>
           decode cod input start end = Inl (InvalidByte (input ! j) j) \<and>
           kind (InvalidByte (input ! j) j) = SyntaxError))"
proof (intro conjI impI)
  assume a: "toStartIndex (length string) start \<le> i \<and> i < toEndIndex (length string) end \<and>
    alphabetLookupSymbol cod (string ! i) = None"
  then obtain j where j: "toStartIndex (length string) start \<le> j" "j \<le> i"
      "alphabetLookupSymbol cod (string ! j) = None"
      "\<forall>k. toStartIndex (length string) start \<le> k \<and> k < j \<longrightarrow>
           alphabetLookupSymbol cod (string ! k) \<noteq> None"
    using first_invalid [of "toStartIndex (length string) start" i
        "\<lambda>k. alphabetLookupSymbol cod (string ! k) = None"] by blast
  with a have "j < toEndIndex (length string) end" by simp
  with j have "decodeFromString cod string start end = Inl (InvalidCharacter (string ! j) j)"
    by (simp add: decodeFromString_def decodeFromStringSymbol_def Let_def
          decodeFromString_loop_first_invalid [of _ j])
  with j show "\<exists>j. toStartIndex (length string) start \<le> j \<and> j \<le> i \<and>
           alphabetLookupSymbol cod (string ! j) = None \<and>
           (\<forall>k. toStartIndex (length string) start \<le> k \<and> k < j \<longrightarrow>
                alphabetLookupSymbol cod (string ! k) \<noteq> None) \<and>
           decodeFromString cod string start end = Inl (InvalidCharacter (string ! j) j) \<and>
           kind (InvalidCharacter (string ! j) j) = SyntaxError"
    by auto
next
  assume a: "toStartIndex (length input) start \<le> i \<and> i < toEndIndex (length input) end \<and>
    baseMapLookupSymbol cod (unat (input ! i)) = None"
  then obtain j where j: "toStartIndex (length input) start \<le> j" "j \<le> i"
      "baseMapLookupSymbol cod (unat (input ! j)) = None"
      "\<forall>k. toStartIndex (length input) start \<le> k \<and> k < j \<longrightarrow>
           baseMapLookupSymbol cod (unat (input ! k)) \<noteq> None"
    using first_invalid [of "toStartIndex (length input) start" i
        "\<lambda>k. baseMapLookupSymbol cod (unat (input ! k)) = None"] by blast
  with a have "j < toEndIndex (length input) end" by simp
  with j have "decode cod input start end = Inl (InvalidByte (input ! j) j)"
    by (simp add: decode_def Let_def decode_loop_first_invalid [of _ j])
  with j show "\<exists>j. toStartIndex (length input) start \<le> j \<and> j \<le> i \<and>
           baseMapLookupSymbol cod (unat (input ! j)) = None \<and>
           (\<forall>k. toStartIndex (length input) start \<le> k \<and> k < j \<longrightarrow>
                baseMapLookupSymbol cod (unat (input ! k)) \<noteq> None) \<and>
           decode cod input start end = Inl (InvalidByte (input ! j) j) \<and>
           kind (InvalidByte (input ! j) j) = SyntaxError"
    by auto
qed

theorem invalid_symbol_rejected_witness:
  "alphabetLookupSymbol base32Crockford (utf16 ''ZZUZ@'' ! 4) = None \<and>
   decodeFromString base32Crockford (utf16 ''ZZUZ@'') None None =
     Inl (InvalidCharacter (of_char (CHR ''U'')) 2) \<and>
   baseMapLookupSymbol base32Crockford (unat ([0x5a, 0x5a, 0x55, 0x5a, 0x40 :: 8 word] ! 4)) = None \<and>
   decode base32Crockford [0x5a, 0x5a, 0x55, 0x5a, 0x40] None None = Inl (InvalidByte 0x55 2)"
proof -
  have s: "toStartIndex (length (utf16 ''ZZUZ@'')) None \<le> 4 \<and>
           4 < toEndIndex (length (utf16 ''ZZUZ@'')) None \<and>
           alphabetLookupSymbol base32Crockford (utf16 ''ZZUZ@'' ! 4) = None"
    by (simp add: decode_eval)
  have b: "toStartIndex (length [0x5a, 0x5a, 0x55, 0x5a, 0x40 :: 8 word]) None \<le> 4 \<and>
           4 < toEndIndex (length [0x5a, 0x5a, 0x55, 0x5a, 0x40 :: 8 word]) None \<and>
           baseMapLookupSymbol base32Crockford (unat ([0x5a, 0x5a, 0x55, 0x5a, 0x40 :: 8 word] ! 4)) = None"
    by (simp add: decode_eval)
  from invalid_symbol_rejected [of "utf16 ''ZZUZ@''" None 4 None base32Crockford
         "[0x5a, 0x5a, 0x55, 0x5a, 0x40]"] s b
  obtain j j' where
    "j \<le> 4" "alphabetLookupSymbol base32Crockford (utf16 ''ZZUZ@'' ! j) = None"
    "\<forall>k. toStartIndex (length (utf16 ''ZZUZ@'')) None \<le> k \<and> k < j \<longrightarrow>
         alphabetLookupSymbol base32Crockford (utf16 ''ZZUZ@'' ! k) \<noteq> None"
    "decodeFromString base32Crockford (utf16 ''ZZUZ@'') None None =
       Inl (InvalidCharacter (utf16 ''ZZUZ@'' ! j) j)"
    "j' \<le> 4"
    "decode base32Crockford [0x5a, 0x5a, 0x55, 0x5a, 0x40] None None =
       Inl (InvalidByte ([0x5a, 0x5a, 0x55, 0x5a, 0x40] ! j') j')"
    by blast
  moreover have "decodeFromString base32Crockford (utf16 ''ZZUZ@'') None None =
     Inl (InvalidCharacter (of_char (CHR ''U'')) 2)"
    by (simp add: decode_eval)
  moreover have "decode base32Crockford [0x5a, 0x5a, 0x55, 0x5a, 0x40] None None = Inl (InvalidByte 0x55 2)"
    by (simp add: decode_eval)
  ultimately show ?thesis using s b by simp
qed

section \<open>Lemmas on the integer decoders\<close>

lemma decodeInt_loop_error:
  "decodeInt_loop lk s is acc = Inl e \<Longrightarrow> kind e = SyntaxError"
  by (induction "is" arbitrary: acc) (auto simp: Let_def split: option.splits)

lemma decodeInt_loop_valid:
  "\<forall>i\<in>set is. lk (s ! i) \<noteq> None \<Longrightarrow>
   decodeInt_loop lk s is acc = Inr (foldl accumulate acc (map (\<lambda>i. the (lk (s ! i))) is))"
  by (induction "is" arbitrary: acc) (auto simp: Let_def)

lemma decodeBigInt_loop_valid:
  "\<forall>i\<in>set is. lk (s ! i) \<noteq> None \<Longrightarrow>
   decodeBigInt_loop lk s is acc =
     Inr (foldl (\<lambda>r v. r * 32 + int v) acc (map (\<lambda>i. the (lk (s ! i))) is))"
  by (induction "is" arbitrary: acc) (auto simp: Let_def)

section \<open>Range errors of the integer codec\<close>

text \<open>
  Claim C7. \<open>encodeInt\<close> fails exactly when the magnitude of its argument exceeds
  \<open>2 ^ 53 - 1\<close>, and then with a \<open>RangeError\<close>; \<open>decodeInt\<close> returns a Number on every
  string of valid symbols, whatever its length, and the only error it ever raises is
  the \<open>SyntaxError\<close> of an invalid character.
\<close>

theorem integer_range_errors:
  "((\<exists>e. encodeInt cod n = Inl e) \<longleftrightarrow> 2 ^ 53 - 1 < \<bar>n\<bar>) \<and>
   (\<forall>e. encodeInt cod n = Inl e \<longrightarrow> kind e = RangeError) \<and>
   ((\<forall>c\<in>set s. alphabetLookupSymbol cod c \<noteq> None) \<longrightarrow> (\<exists>r. decodeInt cod s = Inr r)) \<and>
   (\<forall>e. decodeInt cod s = Inl e \<longrightarrow> kind e = SyntaxError)"
proof (intro conjI allI impI)
  show "(\<exists>e. encodeInt cod n = Inl e) \<longleftrightarrow> 2 ^ 53 - 1 < \<bar>n\<bar>"
    by (auto simp: encodeInt_def NumberMIN_SAFE_INTEGER_def NumberMAX_SAFE_INTEGER_def Let_def)
next
  fix e assume "encodeInt cod n = Inl e"
  then show "kind e = RangeError"
    by (auto simp: encodeInt_def Let_def split: if_splits)
next
  assume valid: "\<forall>c\<in>set s. alphabetLookupSymbol cod c \<noteq> None"
  have "\<exists>r. decodeInt_loop (alphabetLookupSymbol cod) s [k..<length s] (Integer 0) = Inr r" for k
  proof -
    have "\<forall>i\<in>set [k..<length s]. alphabetLookupSymbol cod (s ! i) \<noteq> None"
      using valid by simp
    then show ?thesis
      by (simp only: decodeInt_loop_valid) blast
  qed
  then show "\<exists>r. decodeInt cod s = Inr r"
    unfolding decodeInt_def Let_def by (metis (no_types, lifting) sum.simps(6))
next
  fix e assume "decodeInt cod s = Inl e"
  then show "kind e = SyntaxError"
    by (auto simp: decodeInt_def Let_def split: sum.splits dest: decodeInt_loop_error)
qed

theorem integer_range_errors_witness:
  "encodeInt base32Crockford (2 ^ 53) = Inl AboveMaxSafeInteger \<and>
   encodeInt base32Crockford (- (2 ^ 53)) = Inl BelowMinSafeInteger \<and>
   decodeInt base32Crockford (utf16 ''ZZZZZZZZZZZZ'') = Inr Unsafe"
proof -
  have valid: "\<forall>c\<in>set (utf16 ''ZZZZZZZZZZZZ''). alphabetLookupSymbol base32Crockford c \<noteq> None"
    by (simp add: utf16_def default_alphabetLookup)
  have hi: "encodeInt base32Crockford (2 ^ 53) = Inl AboveMaxSafeInteger"
    and lo: "encodeInt base32Crockford (- (2 ^ 53)) = Inl BelowMinSafeInteger"
    by (simp_all add: encodeInt_def NumberMIN_SAFE_INTEGER_def NumberMAX_SAFE_INTEGER_def)
  from integer_range_errors [of base32Crockford "2 ^ 53" "utf16 ''ZZZZZZZZZZZZ''"] valid
  obtain r where r: "decodeInt base32Crockford (utf16 ''ZZZZZZZZZZZZ'') = Inr r"
    by blast
  have "decodeInt base32Crockford (utf16 ''ZZZZZZZZZZZZ'') = Inr Unsafe"
    by (simp add: decodeInt_eval)
  with r hi lo show ?thesis by simp
qed

section \<open>Lemmas on the encoders\<close>

lemma encodeToString_loop_foldl:
  "encodeToString_loop a input is st =
     foldl (\<lambda>st b. encodeToString_step a (unat b) st) st (map ((!) input) is)"
  by (induction "is" arbitrary: st) simp_all

lemma encodeToString_foldl_symbols:
  "(case foldl (\<lambda>st b. encodeToString_step a (unat b) st) (res, sh, c) bs of
      (r, sh', c') \<Rightarrow> if sh' \<noteq> 3 then r @ [a ! (c' AND 0x1f)] else r) =
   res @ map ((!) a) (symbols sh c bs)"
  by (induction bs arbitrary: res sh c) (simp_all add: Let_def BITS_PER_CHAR_def)

lemma encodeToString_symbols:
  "encodeToString cod input start end =
     map ((!) (alphabetSymbol cod))
       (symbols 3 0 (map ((!) input)
          [toStartIndex (length input) start ..< toEndIndex (length input) end]))"
  using encodeToString_foldl_symbols [of "alphabetSymbol cod" "[]" 3 0]
  by (simp add: encodeToString_def encodeToStringSymbol_def Let_def encodeToString_loop_foldl)

lemma length_symbols:
  "3 \<le> sh \<Longrightarrow> sh \<le> 8 \<Longrightarrow>
   int (length (symbols sh c bs)) = (sh - 3 + 8 * int (length bs) + 4) div 5"
proof (induction bs arbitrary: sh c)
  case Nil
  then show ?case by auto
next
  case (Cons b bs)
  show ?case
  proof (cases "sh > 5")
    case True
    with Cons.prems have "int (length (symbols (8 - (5 - (sh - 5))) (push_bit (nat (5 - (sh - 5))) (unat b)) bs))
        = (8 - (5 - (sh - 5)) - 3 + 8 * int (length bs) + 4) div 5"
      by (intro Cons.IH) auto
    with True show ?thesis by simp
  next
    case False
    with Cons.prems have "int (length (symbols (8 - (5 - sh)) (push_bit (nat (5 - sh)) (unat b)) bs))
        = (8 - (5 - sh) - 3 + 8 * int (length bs) + 4) div 5"
      by (intro Cons.IH) auto
    with False show ?thesis by simp
  qed
qed

lemma length_symbols_initial: "length (symbols 3 0 bs) = (length bs * 8 + 4) div 5"
proof -
  have "int (length (symbols 3 0 bs)) = int ((length bs * 8 + 4) div 5)"
    using length_symbols [of 3 0 bs] by (simp add: zdiv_int mult.commute)
  then show ?thesis by (simp only: of_nat_eq_iff)
qed

lemma length_encode_step:
  "length (fst (encode_step bm byte st)) = length (fst st)"
  by (cases st) (simp add: Let_def)

lemma length_encode_loop:
  "length (fst (encode_loop bm input is st)) = length (fst st)"
  by (induction "is" arbitrary: st) (simp_all add: length_encode_step)

lemma length_decode_step:
  "length (fst (decode_step v st)) = length (fst st)"
  by (cases st) (simp add: Let_def)

lemma length_decodeFromString_loop:
  "decodeFromString_loop lk s is st = Inr st' \<Longrightarrow> length (fst st') = length (fst st)"
  by (induction "is" arbitrary: st)
     (auto simp: Let_def length_decode_step split: option.splits)

lemma length_decode_loop:
  "decode_loop lk s is st = Inr st' \<Longrightarrow> length (fst st') = length (fst st)"
  by (induction "is" arbitrary: st)
     (auto simp: Let_def length_decode_step split: option.splits)

lemma length_decode_finish: "length (decode_finish st) = length (fst st)"
  by (cases st) simp

lemma newLength_nat: "max 0 (int ei - int si) = int (ei - si)"
  by simp

lemma encode_buffer_length: "nat ((int n * 8 + 4) div BITS_PER_CHAR) = (n * 8 + 4) div 5"
proof -
  have "(int n * 8 + 4) div 5 = int ((n * 8 + 4) div 5)"
    by (simp add: zdiv_int)
  then show ?thesis by (simp add: BITS_PER_CHAR_def)
qed

lemma decode_buffer_length: "nat (int n * BITS_PER_CHAR div 8) = 5 * n div 8"
proof -
  have "int n * 5 div 8 = int (5 * n div 8)"
    by (simp add: zdiv_int mult.commute)
  then show ?thesis by (simp add: BITS_PER_CHAR_def)
qed

section \<open>The length formulas\<close>

text \<open>
  Claim C3. When the effective range of the input holds \<open>n\<close> bytes, both encoders
  produce exactly \<open>floor ((n * 8 + 4) / 5)\<close> symbols; when a decode of an effective range
  of \<open>n\<close> symbols succeeds, it returns exactly \<open>floor (5 * n / 8)\<close> bytes. The range runs
  from \<open>toStartIndex\<close> to \<open>toEndIndex\<close>, and holds no element when the latter is not above
  the former (the difference of naturals is then 0).
\<close>

theorem length_formulas:
  "length (encodeToString cod input start end) =
     ((toEndIndex (length input) end - toStartIndex (length input) start) * 8 + 4) div 5 \<and>
   length (encode cod input start end) =
     ((toEndIndex (length input) end - toStartIndex (length input) start) * 8 + 4) div 5 \<and>
   (decodeFromString cod string start end = Inr out \<longrightarrow>
      length out = 5 * (toEndIndex (length string) end - toStartIndex (length string) start) div 8) \<and>
   (decode cod input start end = Inr out \<longrightarrow>
      length out = 5 * (toEndIndex (length input) end - toStartIndex (length input) start) div 8)"
proof (intro conjI impI)
  show "length (encodeToString cod input start end) =
     ((toEndIndex (length input) end - toStartIndex (length input) start) * 8 + 4) div 5"
    by (simp add: encodeToString_symbols length_symbols_initial)
next
  obtain r sh c i where st: "encode_loop (baseMapSymbol cod) input
      [toStartIndex (length input) start ..< toEndIndex (length input) end]
      (replicate (((toEndIndex (length input) end - toStartIndex (length input) start) * 8 + 4) div 5) 0,
       3, 0, 0) = (r, sh, c, i)"
    using prod_cases4 by blast
  have "length (fst (encode_loop (baseMapSymbol cod) input
      [toStartIndex (length input) start ..< toEndIndex (length input) end]
      (replicate (((toEndIndex (length input) end - toStartIndex (length input) start) * 8 + 4) div 5) 0,
       3, 0, 0))) =
     ((toEndIndex (length input) end - toStartIndex (length input) start) * 8 + 4) div 5"
    by (simp add: length_encode_loop)
  then have "length r = ((toEndIndex (length input) end - toStartIndex (length input) start) * 8 + 4) div 5"
    by (simp add: st)
  with st show "length (encode cod input start end) =
     ((toEndIndex (length input) end - toStartIndex (length input) start) * 8 + 4) div 5"
    by (simp add: encode_def Let_def newLength_nat encode_buffer_length del: max_0L of_nat_diff)
next
  assume "decodeFromString cod string start end = Inr out"
  then obtain st where st: "decodeFromString_loop (alphabetLookupSymbol cod) string
      [toStartIndex (length string) start ..< toEndIndex (length string) end]
      (replicate (5 * (toEndIndex (length string) end - toStartIndex (length string) start) div 8) 0,
       8, 0, 0) = Inr st" and out: "out = decode_finish st"
    by (auto simp: decodeFromString_def decodeFromStringSymbol_def Let_def newLength_nat
          decode_buffer_length split: sum.splits simp del: of_nat_diff)
  from length_decodeFromString_loop [OF st] out
  show "length out = 5 * (toEndIndex (length string) end - toStartIndex (length string) start) div 8"
    by (simp add: length_decode_finish)
next
  assume "decode cod input start end = Inr out"
  then obtain st where st: "decode_loop (baseMapLookupSymbol cod) input
      [toStartIndex (length input) start ..< toEndIndex (length input) end]
      (replicate (5 * (toEndIndex (length input) end - toStartIndex (length input) start) div 8) 0,
       8, 0, 0) = Inr st" and out: "out = decode_finish st"
    by (auto simp: decode_def Let_def newLength_nat
          decode_buffer_length split: sum.splits simp del: of_nat_diff)
  from length_decode_loop [OF st] out
  show "length out = 5 * (toEndIndex (length input) end - toStartIndex (length input) start) div 8"
    by (simp add: length_decode_finish)
qed

theorem length_formulas_witness:
  "length (encodeToString base32Crockford [0x5a, 0x5a, 0x5a] (Some (- 2)) None) = 4 \<and>
   length (encode base32Crockford [0x5a, 0x5a, 0x5a] (Some (- 2)) None) = 4 \<and>
   decodeFromString base32Crockford (utf16 ''ZZZ'') (Some (- 2)) None = Inr [0xff] \<and>
   decode base32Crockford [0x5a, 0x5a, 0x5a] (Some (- 2)) None = Inr [0xff]"
proof -
  have s: "decodeFromString base32Crockford (utf16 ''ZZZ'') (Some (- 2)) None = Inr [0xff]"
    and b: "decode base32Crockford [0x5a, 0x5a, 0x5a] (Some (- 2)) None = Inr [0xff]"
    by (simp_all add: decode_eval upt_rec)
  from length_formulas [of base32Crockford "[0x5a, 0x5a, 0x5a]" "Some (- 2)" None
         "utf16 ''ZZZ''" "[0xff]"] s b
  show ?thesis
    by (simp add: toStartIndex_def toEndIndex_def sliceIndex_def)
qed

section \<open>Lemmas on the integer codec\<close>

declare encodeInt_loop.simps [simp del] encodeBigInt_loop.simps [simp del]

lemma default_canonical_lookups: "canonical_lookups base32Crockford"
  unfolding canonical_lookups_def upt_BASE default_alphabet ALPHABET_codes
    default_alphabetLookup default_baseMap default_baseMapLookup
  by simp

lemma canonical_lookupsD:
  assumes "canonical_lookups cod" and "v < BASE"
  shows "alphabetLookupSymbol cod (alphabetSymbol cod ! v) = Some v"
    and "baseMapLookupSymbol cod (unat (baseMapSymbol cod ! v)) = Some v"
  using assms by (simp_all add: canonical_lookups_def list_all_iff)

lemma length_ALPHABET: "length ALPHABET = BASE"
  by (simp add: ALPHABET_codes BASE_def)

lemma ALPHABET_not_negative: "d < BASE \<Longrightarrow> ALPHABET ! d \<noteq> NEGATIVE_CHAR"
proof -
  assume "d < BASE"
  then have "ALPHABET ! d \<in> set ALPHABET"
    by (simp add: length_ALPHABET)
  moreover have "NEGATIVE_CHAR \<notin> set ALPHABET"
    by (simp add: ALPHABET_codes NEGATIVE_CHAR_def)
  ultimately show ?thesis by metis
qed

lemma map_nth_whole: "map (\<lambda>i. f (s ! i)) [0..<length s] = map f s"
  using map_nth [of s] map_map [of f "(!) s" "[0..<length s]"] by (simp add: comp_def)

lemma map_nth_tail: "map (\<lambda>i. f ((x # t) ! i)) [Suc 0..<Suc (length t)] = map f t"
proof -
  have "[Suc 0..<Suc (length t)] = map Suc [0..<length t]"
    by (simp only: map_Suc_upt)
  then show ?thesis
    using map_nth_whole [of f t] by (simp add: comp_def)
qed

lemma encodeInt_loop_0: "encodeInt_loop a 0 acc = acc"
  by (subst encodeInt_loop.simps) simp

lemma encodeInt_loop_rec:
  "number \<noteq> 0 \<Longrightarrow>
   encodeInt_loop a number acc =
     encodeInt_loop a (number div BASE) (a ! (number mod BASE) # acc)"
  by (subst encodeInt_loop.simps) simp

lemma encodeInt_loop_head:
  "number \<noteq> 0 \<Longrightarrow> \<exists>d<BASE. \<exists>rest. encodeInt_loop a number acc = a ! d # rest"
proof (induction a number acc rule: encodeInt_loop.induct)
  case (1 a number acc)
  show ?case
  proof (cases "number div BASE = 0")
    case True
    with "1.prems" have "encodeInt_loop a number acc = a ! (number mod BASE) # acc"
      by (simp add: encodeInt_loop_rec encodeInt_loop_0)
    moreover have "number mod BASE < BASE" by (simp add: BASE_def)
    ultimately show ?thesis by blast
  next
    case False
    with "1.prems" "1.IH" show ?thesis
      by (simp add: encodeInt_loop_rec)
  qed
qed

lemma encodeInt_loop_set:
  "set (encodeInt_loop a number acc) \<subseteq> {a ! d |d. d < BASE} \<union> set acc"
proof (induction a number acc rule: encodeInt_loop.induct)
  case (1 a number acc)
  show ?case
  proof (cases "number = 0")
    case True
    then show ?thesis by (simp add: encodeInt_loop_0)
  next
    case False
    have "number mod BASE < BASE" by (simp add: BASE_def)
    with False "1.IH" show ?thesis
      by (auto simp: encodeInt_loop_rec)
  qed
qed

lemma encodeInt_loop_accumulate:
  "\<forall>d<BASE. lk (a ! d) = Some d \<Longrightarrow> int number \<le> NumberMAX_SAFE_INTEGER \<Longrightarrow>
     foldl accumulate (Integer 0) (map (\<lambda>c. the (lk c)) (encodeInt_loop a number acc)) =
     foldl accumulate (Integer (int number)) (map (\<lambda>c. the (lk c)) acc)"
proof (induction a number acc rule: encodeInt_loop.induct)
  case (1 a number acc)
  show ?case
  proof (cases "number = 0")
    case True
    then show ?thesis by (simp add: encodeInt_loop_0)
  next
    case False
    have d: "number mod BASE < BASE" by (simp add: BASE_def)
    have le: "int (number div BASE) \<le> int number"
      by simp
    with "1.prems" have small: "int (number div BASE) \<le> NumberMAX_SAFE_INTEGER"
      by linarith
    have "int (number div BASE) * int BASE + int (number mod BASE) = int number"
      by (simp add: zdiv_int zmod_int)
    with "1.prems" have acc: "accumulate (Integer (int (number div BASE))) (number mod BASE) =
        Integer (int number)"
      by (simp add: accumulate_def Let_def)
    from "1.prems" d have lkd: "lk (a ! (number mod BASE)) = Some (number mod BASE)"
      by blast
    have "foldl accumulate (Integer 0) (map (\<lambda>c. the (lk c)) (encodeInt_loop a number acc)) =
          foldl accumulate (Integer 0) (map (\<lambda>c. the (lk c))
            (encodeInt_loop a (number div BASE) (a ! (number mod BASE) # acc)))"
      using False by (simp add: encodeInt_loop_rec)
    also have "\<dots> = foldl accumulate (Integer (int (number div BASE)))
            (map (\<lambda>c. the (lk c)) (a ! (number mod BASE) # acc))"
      using False "1.prems"(1) small by (intro "1.IH") auto
    also have "\<dots> = foldl accumulate (Integer (int number)) (map (\<lambda>c. the (lk c)) acc)"
      by (simp add: lkd acc)
    finally show ?thesis .
  qed
qed

lemma encodeBigInt_loop_eq: "encodeBigInt_loop a number acc = encodeInt_loop a number acc"
  by (induction a number acc rule: encodeInt_loop.induct)
     (simp add: encodeInt_loop.simps [of _ "_ :: nat"] encodeBigInt_loop.simps [of _ "_ :: nat"] BASE_def)

lemma encodeInt_loop_bigint:
  "\<forall>d<BASE. lk (a ! d) = Some d \<Longrightarrow>
     foldl (\<lambda>r v. r * 32 + int v) 0 (map (\<lambda>c. the (lk c)) (encodeInt_loop a number acc)) =
     foldl (\<lambda>r v. r * 32 + int v) (int number) (map (\<lambda>c. the (lk c)) acc)"
proof (induction a number acc rule: encodeInt_loop.induct)
  case (1 a number acc)
  show ?case
  proof (cases "number = 0")
    case True
    then show ?thesis by (simp add: encodeInt_loop_0)
  next
    case False
    have d: "number mod BASE < BASE" by (simp add: BASE_def)
    have eq: "int (number div BASE) * 32 + int (number mod BASE) = int number"
      unfolding BASE_def by (simp add: zdiv_int zmod_int)
    from "1.prems" d have lkd: "lk (a ! (number mod BASE)) = Some (number mod BASE)"
      by blast
    have "foldl (\<lambda>r v. r * 32 + int v) 0 (map (\<lambda>c. the (lk c)) (encodeInt_loop a number acc)) =
          foldl (\<lambda>r v. r * 32 + int v) 0 (map (\<lambda>c. the (lk c))
            (encodeInt_loop a (number div BASE) (a ! (number mod BASE) # acc)))"
      using False by (simp add: encodeInt_loop_rec)
    also have "\<dots> = foldl (\<lambda>r v. r * 32 + int v) (int (number div BASE))
            (map (\<lambda>c. the (lk c)) (a ! (number mod BASE) # acc))"
      using False "1.prems"(1) by (intro "1.IH") auto
    also have "\<dots> = foldl (\<lambda>r v. r * 32 + int v) (int number) (map (\<lambda>c. the (lk c)) acc)"
      by (simp add: lkd eq)
    finally show ?thesis .
  qed
qed

text \<open>
  The alphabet of a constructed codec has 32 characters, all keys of the default
  lookup; the sign marker is none of them.
\<close>

lemma Base32Crockford_None: "Base32Crockford None = Inr base32Crockford"
  by (simp add: Base32Crockford_def toAlphabet_def base32Crockford_def)

lemma NEGATIVE_CHAR_not_key: "alphabetLookupSymbol base32Crockford NEGATIVE_CHAR = None"
  by (simp add: default_alphabetLookup NEGATIVE_CHAR_def)

lemma constructed_alphabet:
  assumes "Base32Crockford v = Inr cod"
  shows "length (alphabetSymbol cod) = BASE"
    and "set (alphabetSymbol cod) \<subseteq> dom (alphabetLookupSymbol base32Crockford)"
proof -
  have "length (alphabetSymbol cod) = BASE \<and>
        set (alphabetSymbol cod) \<subseteq> dom (alphabetLookupSymbol base32Crockford)"
  proof (cases v)
    case None
    with assms have "cod = base32Crockford"
      by (simp add: Base32Crockford_None)
    moreover have "set ALPHABET \<subseteq> dom (alphabetLookupSymbol base32Crockford)"
      by (simp add: ALPHABET_codes default_alphabetLookup)
    ultimately show ?thesis
      by (simp add: default_alphabet length_ALPHABET)
  next
    case (Some a)
    with assms show ?thesis
      by (simp add: Base32Crockford_Inr new_codec_def Let_def)
  qed
  then show "length (alphabetSymbol cod) = BASE"
    and "set (alphabetSymbol cod) \<subseteq> dom (alphabetLookupSymbol base32Crockford)"
    by simp_all
qed

lemma constructed_not_negative:
  assumes "Base32Crockford v = Inr cod" and "d < BASE"
  shows "alphabetSymbol cod ! d \<noteq> NEGATIVE_CHAR"
proof -
  from assms have "alphabetSymbol cod ! d \<in> set (alphabetSymbol cod)"
    by (simp add: constructed_alphabet(1))
  with constructed_alphabet(2) [OF assms(1)]
  have "alphabetLookupSymbol base32Crockford (alphabetSymbol cod ! d) \<noteq> None"
    by blast
  with NEGATIVE_CHAR_not_key show ?thesis
    by metis
qed

text \<open>
  What the two decoders return on the digits of a positive number, for a constructed
  codec whose character lookup sends each canonical symbol back to its index.
\<close>

lemma decodeInt_digits:
  assumes cod: "Base32Crockford v = Inr cod"
    and lk: "\<forall>d<BASE. alphabetLookupSymbol cod (alphabetSymbol cod ! d) = Some d"
    and pos: "0 < number" and safe: "int number \<le> NumberMAX_SAFE_INTEGER"
  shows "decodeInt cod (encodeInt_loop (alphabetSymbol cod) number []) =
           Inr (Integer (int number))"
    and "decodeInt cod (NEGATIVE_CHAR # encodeInt_loop (alphabetSymbol cod) number []) =
           Inr (Integer (- int number))"
proof -
  let ?lk = "alphabetLookupSymbol cod"
  let ?a = "alphabetSymbol cod"
  let ?s = "encodeInt_loop ?a number []"
  from pos obtain d rest where d: "d < BASE" and s: "?s = ?a ! d # rest"
    using encodeInt_loop_head [of number ?a "[]"] by auto
  have valid: "\<forall>c\<in>set ?s. ?lk c \<noteq> None"
    using encodeInt_loop_set [of ?a number "[]"] lk by auto
  have digits: "foldl accumulate (Integer 0) (map (\<lambda>c. the (?lk c)) ?s) = Integer (int number)"
    using encodeInt_loop_accumulate [OF lk safe, of "[]"] by simp
  have notneg: "\<not> startsNegative ?s"
    using constructed_not_negative [OF cod d] by (simp add: s startsNegative_def)
  have "decodeInt_loop ?lk ?s [0..<length ?s] (Integer 0) = Inr (Integer (int number))"
    using valid digits
    by (simp add: decodeInt_loop_valid map_nth_whole [of "\<lambda>c. the (?lk c)" ?s])
  with notneg show "decodeInt cod ?s = Inr (Integer (int number))"
    by (simp add: decodeInt_def Let_def)
  have "\<forall>i\<in>set [Suc 0..<Suc (length ?s)]. ?lk ((NEGATIVE_CHAR # ?s) ! i) \<noteq> None"
    using valid by (auto simp: nth_Cons split: nat.splits)
  then have "decodeInt_loop ?lk (NEGATIVE_CHAR # ?s) [Suc 0..<Suc (length ?s)] (Integer 0) =
      Inr (Integer (int number))"
    by (simp only: decodeInt_loop_valid
          map_nth_tail [of "\<lambda>c. the (?lk c)" NEGATIVE_CHAR ?s] digits)
  moreover have "startsNegative (NEGATIVE_CHAR # ?s)" "1 < length (NEGATIVE_CHAR # ?s)"
    by (simp_all add: startsNegative_def s)
  ultimately show "decodeInt cod (NEGATIVE_CHAR # ?s) = Inr (Integer (- int number))"
    using pos by (simp add: decodeInt_def Let_def)
qed

lemma decodeBigInt_digits:
  assumes cod: "Base32Crockford v = Inr cod"
    and lk: "\<forall>d<BASE. alphabetLookupSymbol cod (alphabetSymbol cod ! d) = Some d"
    and pos: "0 < number"
  shows "decodeBigInt cod (encodeInt_loop (alphabetSymbol cod) number []) = Inr (int number)"
    and "decodeBigInt cod (NEGATIVE_CHAR # encodeInt_loop (alphabetSymbol cod) number []) =
           Inr (- int number)"
proof -
  let ?lk = "alphabetLookupSymbol cod"
  let ?a = "alphabetSymbol cod"
  let ?s = "encodeInt_loop ?a number []"
  from pos obtain d rest where d: "d < BASE" and s: "?s = ?a ! d # rest"
    using encodeInt_loop_head [of number ?a "[]"] by auto
  have valid: "\<forall>c\<in>set ?s. ?lk c \<noteq> None"
    using encodeInt_loop_set [of ?a number "[]"] lk by auto
  have digits: "foldl (\<lambda>r v. r * 32 + int v) 0 (map (\<lambda>c. the (?lk c)) ?s) = int number"
    using encodeInt_loop_bigint [OF lk, of number "[]"] by simp
  have notneg: "\<not> startsNegative ?s"
    using constructed_not_negative [OF cod d] by (simp add: s startsNegative_def)
  have "decodeBigInt_loop ?lk ?s [0..<length ?s] 0 = Inr (int number)"
    using valid digits
    by (simp add: decodeBigInt_loop_valid map_nth_whole [of "\<lambda>c. the (?lk c)" ?s])
  with notneg show "decodeBigInt cod ?s = Inr (int number)"
    by (simp add: decodeBigInt_def Let_def)
  have "\<forall>i\<in>set [Suc 0..<Suc (length ?s)]. ?lk ((NEGATIVE_CHAR # ?s) ! i) \<noteq> None"
    using valid by (auto simp: nth_Cons split: nat.splits)
  then have "decodeBigInt_loop ?lk (NEGATIVE_CHAR # ?s) [Suc 0..<Suc (length ?s)] 0 =
      Inr (int number)"
    by (simp only: decodeBigInt_loop_valid
          map_nth_tail [of "\<lambda>c. the (?lk c)" NEGATIVE_CHAR ?s] digits)
  moreover have "startsNegative (NEGATIVE_CHAR # ?s)" "1 < length (NEGATIVE_CHAR # ?s)"
    by (simp_all add: startsNegative_def s)
  ultimately show "decodeBigInt cod (NEGATIVE_CHAR # ?s) = Inr (- int number)"
    by (simp add: decodeBigInt_def Let_def)
qed

lemma decode_zero:
  assumes cod: "Base32Crockford v = Inr cod"
    and lk: "\<forall>d<BASE. alphabetLookupSymbol cod (alphabetSymbol cod ! d) = Some d"
  shows "decodeInt cod [alphabetSymbol cod ! 0] = Inr (Integer 0)"
    and "decodeBigInt cod [alphabetSymbol cod ! 0] = Inr 0"
proof -
  have z: "(0::nat) < BASE" by (simp add: BASE_def)
  with lk have l0: "alphabetLookupSymbol cod (alphabetSymbol cod ! 0) = Some 0"
    by blast
  have notneg: "\<not> startsNegative [alphabetSymbol cod ! 0]"
    using constructed_not_negative [OF cod z] by (simp add: startsNegative_def)
  from l0 notneg show "decodeInt cod [alphabetSymbol cod ! 0] = Inr (Integer 0)"
    by (simp add: decodeInt_def Let_def accumulate_def NumberMAX_SAFE_INTEGER_def)
  from l0 notneg show "decodeBigInt cod [alphabetSymbol cod ! 0] = Inr 0"
    by (simp add: decodeBigInt_def Let_def)
qed

lemma aliased_alphabet_tables:
  "lookup (createAlphabetLookups (utf16 ''O123456789ABCDEFGHJKMNPQRSTVWXY0'')) (of_char (CHR ''O''))
     = Some 31"
  "baseMapLookup (createAlphabetLookups (utf16 ''O123456789ABCDEFGHJKMNPQRSTVWXY0'')) 0x4f = Some 31"
  "baseMap (createAlphabetLookups (utf16 ''O123456789ABCDEFGHJKMNPQRSTVWXY0'')) ! 0 = 0x4f"
  unfolding createAlphabetLookups_def upt_BASE replicate_BASE utf16_def
  by (simp_all add: createAlphabetLookups_step_def list_update_Cons_numeral)

section \<open>Round trip of the integers\<close>

text \<open>
  Claim C2, as amended. On the default codec, and on every constructed codec whose
  character lookup sends each of its 32 canonical symbols back to its own index: for
  every integer \<open>n\<close> of magnitude at most \<open>2 ^ 53 - 1\<close>, \<open>encodeInt\<close> returns a string
  which \<open>decodeInt\<close> sends back to \<open>n\<close>, held exactly (the result is \<open>Integer n\<close>, which
  the accumulation \<open>result * 32 + digit\<close> yields only if none of its steps has left the
  safe range); and for every integer \<open>m\<close>, \<open>decodeBigInt\<close> of \<open>encodeBigInt m\<close> is \<open>m\<close>.
\<close>

theorem integer_round_trip:
  assumes cod: "Base32Crockford alphabet = Inr cod"
    and lk: "\<forall>d<BASE. alphabetLookupSymbol cod (alphabetSymbol cod ! d) = Some d"
  shows "(\<bar>n\<bar> \<le> 2 ^ 53 - 1 \<longrightarrow>
            (\<exists>s. encodeInt cod n = Inr s \<and> decodeInt cod s = Inr (Integer n))) \<and>
         decodeBigInt cod (encodeBigInt cod m) = Inr m"
proof (intro conjI impI)
  assume range: "\<bar>n\<bar> \<le> 2 ^ 53 - 1"
  consider "n = 0" | "0 < n" | "n < 0" by linarith
  then show "\<exists>s. encodeInt cod n = Inr s \<and> decodeInt cod s = Inr (Integer n)"
  proof cases
    case 1
    then show ?thesis
      by (simp add: encodeInt_def NumberMIN_SAFE_INTEGER_def NumberMAX_SAFE_INTEGER_def
            decode_zero(1) [OF cod lk])
  next
    case 2
    with range have "0 < nat n" "int (nat n) \<le> NumberMAX_SAFE_INTEGER"
      by (simp_all add: NumberMAX_SAFE_INTEGER_def)
    from decodeInt_digits(1) [OF cod lk this] 2 range show ?thesis
      by (simp add: encodeInt_def NumberMIN_SAFE_INTEGER_def NumberMAX_SAFE_INTEGER_def Let_def)
  next
    case 3
    with range have "0 < nat (- n)" "int (nat (- n)) \<le> NumberMAX_SAFE_INTEGER"
      by (simp_all add: NumberMAX_SAFE_INTEGER_def)
    from decodeInt_digits(2) [OF cod lk this] 3 range show ?thesis
      by (simp add: encodeInt_def NumberMIN_SAFE_INTEGER_def NumberMAX_SAFE_INTEGER_def Let_def)
  qed
next
  consider "m = 0" | "0 < m" | "m < 0" by linarith
  then show "decodeBigInt cod (encodeBigInt cod m) = Inr m"
  proof cases
    case 1
    then show ?thesis
      by (simp add: encodeBigInt_def decode_zero(2) [OF cod lk])
  next
    case 2
    then have "0 < nat m" by simp
    from decodeBigInt_digits(1) [OF cod lk this] 2 show ?thesis
      by (simp add: encodeBigInt_def encodeBigInt_loop_eq Let_def)
  next
    case 3
    then have "0 < nat (- m)" by simp
    from decodeBigInt_digits(2) [OF cod lk this] 3 show ?thesis
      by (simp add: encodeBigInt_def encodeBigInt_loop_eq Let_def)
  qed
qed

theorem integer_round_trip_witness:
  "Base32Crockford None = Inr base32Crockford \<and>
   encodeInt base32Crockford (- (2 ^ 53 - 1)) = Inr (utf16 ''-7ZZZZZZZZZZ'') \<and>
   decodeInt base32Crockford (utf16 ''-7ZZZZZZZZZZ'') = Inr (Integer (- (2 ^ 53 - 1))) \<and>
   decodeBigInt base32Crockford (encodeBigInt base32Crockford (- (2 ^ 64))) = Inr (- (2 ^ 64))"
proof -
  have lk: "\<forall>d<BASE. alphabetLookupSymbol base32Crockford (alphabetSymbol base32Crockford ! d)
      = Some d"
    using canonical_lookupsD(1) [OF default_canonical_lookups] by blast
  have enc: "encodeInt base32Crockford (- (2 ^ 53 - 1)) = Inr (utf16 ''-7ZZZZZZZZZZ'')"
    by (simp add: encodeInt_def NumberMIN_SAFE_INTEGER_def NumberMAX_SAFE_INTEGER_def
          default_alphabet ALPHABET_codes encodeInt_loop.simps BASE_def utf16_def NEGATIVE_CHAR_def)
  have range: "\<bar>- (2 ^ 53 - 1)\<bar> \<le> (2 ^ 53 - 1 :: int)" by simp
  from integer_round_trip [OF Base32Crockford_None lk, of "- (2 ^ 53 - 1)" "- (2 ^ 64)"]
    range enc Base32Crockford_None
  show ?thesis by simp
qed

text \<open>
  The claim as stated fails on a constructed codec: the alphabet that starts with \<open>O\<close>
  and ends with \<open>0\<close> is accepted; its symbol \<open>O\<close> (value 0) becomes an alias of its
  symbol \<open>0\<close> (value 31), so 0 is encoded as \<open>"O"\<close>, which decodes to 31, as a Number and
  as a BigInt.
\<close>

theorem integer_round_trip_counterexample:
  "Base32Crockford (Some (utf16 ''O123456789ABCDEFGHJKMNPQRSTVWXY0'')) =
     Inr (new_codec (utf16 ''O123456789ABCDEFGHJKMNPQRSTVWXY0'')) \<and>
   encodeInt (new_codec (utf16 ''O123456789ABCDEFGHJKMNPQRSTVWXY0'')) 0 = Inr (utf16 ''O'') \<and>
   decodeInt (new_codec (utf16 ''O123456789ABCDEFGHJKMNPQRSTVWXY0'')) (utf16 ''O'') =
     Inr (Integer 31) \<and>
   encodeBigInt (new_codec (utf16 ''O123456789ABCDEFGHJKMNPQRSTVWXY0'')) 0 = utf16 ''O'' \<and>
   decodeBigInt (new_codec (utf16 ''O123456789ABCDEFGHJKMNPQRSTVWXY0'')) (utf16 ''O'') = Inr 31"
proof -
  let ?a = "utf16 ''O123456789ABCDEFGHJKMNPQRSTVWXY0''"
  have ok: "Base32Crockford (Some ?a) = Inr (new_codec ?a)"
    by (simp add: Base32Crockford_Inr default_alphabetLookup utf16_def BASE_def)
  have a0: "?a ! 0 = of_char (CHR ''O'')"
    by (simp add: utf16_def)
  have enc: "encodeInt (new_codec ?a) 0 = Inr (utf16 ''O'')"
    by (simp add: encodeInt_def NumberMIN_SAFE_INTEGER_def NumberMAX_SAFE_INTEGER_def
          new_codec_def Let_def a0) (simp add: utf16_def)
  have encb: "encodeBigInt (new_codec ?a) 0 = utf16 ''O''"
    by (simp add: encodeBigInt_def new_codec_def Let_def a0) (simp add: utf16_def)
  have dec: "decodeInt (new_codec ?a) (utf16 ''O'') = Inr (Integer 31)"
    using aliased_alphabet_tables(1)
    by (simp add: decodeInt_def startsNegative_def NEGATIVE_CHAR_def accumulate_def
          NumberMAX_SAFE_INTEGER_def BASE_def new_codec_def Let_def utf16_def)
  have decb: "decodeBigInt (new_codec ?a) (utf16 ''O'') = Inr 31"
    using aliased_alphabet_tables(1)
    by (simp add: decodeBigInt_def startsNegative_def NEGATIVE_CHAR_def
          new_codec_def Let_def utf16_def)
  from ok enc encb dec decb show ?thesis by simp
qed

section \<open>Lemmas on the bit packing\<close>

lemma and_31: "(x::nat) AND 31 = take_bit 5 x"
  using take_bit_eq_mask [of 5 x] by (simp add: mask_eq_exp_minus_1)

lemma and_255: "(x::nat) AND 255 = take_bit 8 x"
  using take_bit_eq_mask [of 8 x] by (simp add: mask_eq_exp_minus_1)

lemma byte_bit: "(b::nat) < 256 \<Longrightarrow> bit b n \<Longrightarrow> n < 8"
proof -
  assume "b < 256" and b: "bit b n"
  then have "take_bit 8 b = b" by (simp add: take_bit_nat_eq_self)
  with b have "bit (take_bit 8 b) n" by simp
  then show "n < 8" by (simp add: bit_take_bit_iff)
qed

lemma unat_byte: "unat (b :: 8 word) < 256"
  using unsigned_less [of b, where ?'a = nat] by simp

lemma of_nat_unat_byte: "of_nat (unat b) = (b :: 8 word)"
  by simp

text \<open>One step of \<open>symbols\<close> and of \<open>bytes\<close>, by the number \<open>q\<close> of bits kept back.\<close>

lemma symbols_low:
  "q \<le> 2 \<Longrightarrow> symbols (int q + 3) c (b # bs) =
     ((c OR drop_bit (q + 3) (unat b)) AND 31)
       # symbols (int (q + 3) + 3) (push_bit (5 - (q + 3)) (unat b)) bs"
  by (simp add: nat_add_distrib nat_diff_distrib)

lemma symbols_high:
  "3 \<le> q \<Longrightarrow> q \<le> 5 \<Longrightarrow> symbols (int q + 3) c (b # bs) =
     ((c OR drop_bit (q + 3) (unat b)) AND 31)
       # (drop_bit (q - 2) (unat b) AND 31)
       # symbols (int (q - 2) + 3) (push_bit (5 - (q - 2)) (unat b)) bs"
  by (simp add: nat_add_distrib nat_diff_distrib)

lemma symbols_last:
  "0 < q \<Longrightarrow> symbols (int q + 3) c [] = [c AND 31]"
  by simp

lemma bytes_emit:
  "q < 5 \<Longrightarrow> bytes (int q) c (v # vs) =
     of_nat (c OR drop_bit (5 - q) (v AND 255))
       # bytes (int (q + 3)) (push_bit (q + 3) (v AND 255) AND 255) vs"
  by (simp add: nat_add_distrib nat_diff_distrib add.commute)

lemma bytes_full:
  "bytes (int 5) c (v # vs) = of_nat (c OR (v AND 255)) # bytes (int 8) 0 vs"
  by simp

lemma bytes_accumulate:
  "5 < q \<Longrightarrow> bytes (int q) c (v # vs) =
     bytes (int (q - 5)) (c OR push_bit (q - 5) (v AND 255)) vs"
  by (simp add: nat_add_distrib nat_diff_distrib)

text \<open>The identities on the bits of one or two bytes that the steps rest on.\<close>

lemma emit_last:
  "x < 256 \<Longrightarrow> 0 < q \<Longrightarrow> q < 5 \<Longrightarrow>
   push_bit q (drop_bit q x) OR drop_bit (5 - q) ((push_bit (5 - q) x AND 31) AND 255) = (x::nat)"
  unfolding and_31 and_255
  by (rule bit_eqI) (auto simp: bit_simps dest: byte_bit)

lemma emit_full:
  "x < 256 \<Longrightarrow> y < 256 \<Longrightarrow>
   push_bit 5 (drop_bit 5 x) OR (((push_bit (5 - 5) x OR drop_bit (5 + 3) y) AND 31) AND 255) = (x::nat)"
  unfolding and_31 and_255
  by (rule bit_eqI) (auto simp: bit_simps dest: byte_bit)

lemma emit_full_last:
  "x < 256 \<Longrightarrow>
   push_bit 5 (drop_bit 5 x) OR ((push_bit (5 - 5) x AND 31) AND 255) = (x::nat)"
  unfolding and_31 and_255
  by (rule bit_eqI) (auto simp: bit_simps dest: byte_bit)

lemma emit_next:
  "x < 256 \<Longrightarrow> y < 256 \<Longrightarrow> 0 < q \<Longrightarrow> q < 5 \<Longrightarrow>
   push_bit q (drop_bit q x)
     OR drop_bit (5 - q) (((push_bit (5 - q) x OR drop_bit (q + 3) y) AND 31) AND 255) = (x::nat)"
  unfolding and_31 and_255
  by (rule bit_eqI) (auto simp: bit_simps dest: byte_bit)

lemma carry_next:
  "y < 256 \<Longrightarrow> 0 < q \<Longrightarrow> q < 5 \<Longrightarrow>
   push_bit (q + 3) (((push_bit (5 - q) x OR drop_bit (q + 3) y) AND 31) AND 255) AND 255
     = push_bit (q + 3) (drop_bit (q + 3) (y::nat))"
  unfolding and_31 and_255
  by (rule bit_eqI) (auto simp: bit_simps dest: byte_bit)

lemma carry_second:
  "y < 256 \<Longrightarrow> 3 \<le> q \<Longrightarrow> q \<le> 5 \<Longrightarrow>
   c = push_bit (q + 3) (drop_bit (q + 3) y) \<Longrightarrow>
   c OR push_bit (q + 3 - 5) ((drop_bit (q - 2) y AND 31) AND 255)
     = push_bit (q - 2) (drop_bit (q - 2) (y::nat))"
  unfolding and_31 and_255
  by (rule bit_eqI) (auto simp: bit_simps dest: byte_bit)

lemma carry_first:
  "y < 256 \<Longrightarrow> 0 OR push_bit (8 - 5) ((drop_bit (5 - 2) y AND 31) AND 255)
     = push_bit (5 - 2) (drop_bit (5 - 2) (y::nat))"
  unfolding and_31 and_255
  by (rule bit_eqI) (auto simp: bit_simps dest: byte_bit)

text \<open>
  The decoder undoes the encoder from any state of the pair: \<open>q\<close> low bits of the byte
  \<open>b\<close> are still held back by the encoder, and the decoder holds the other bits of \<open>b\<close>.
\<close>

lemma round_trip_phase:
  "0 < q \<Longrightarrow> q \<le> 5 \<Longrightarrow>
   bytes (int q) (push_bit q (drop_bit q (unat b)))
     (symbols (int q + 3) (push_bit (5 - q) (unat b)) bs) = b # bs"
proof (induction bs arbitrary: q b)
  case Nil
  have x: "unat b < 256" by (rule unat_byte)
  show ?case
  proof (cases "q < 5")
    case True
    have "bytes (int q) (push_bit q (drop_bit q (unat b)))
            (symbols (int q + 3) (push_bit (5 - q) (unat b)) [])
        = bytes (int q) (push_bit q (drop_bit q (unat b))) [push_bit (5 - q) (unat b) AND 31]"
      using Nil by (simp only: symbols_last)
    also have "\<dots> = [of_nat (push_bit q (drop_bit q (unat b))
          OR drop_bit (5 - q) ((push_bit (5 - q) (unat b) AND 31) AND 255))]"
      using True by (simp only: bytes_emit bytes.simps(1))
    also have "\<dots> = [b]"
      using x Nil True by (simp only: emit_last) simp
    finally show ?thesis .
  next
    case False
    with Nil have q: "q = 5" by simp
    have "bytes (int 5) (push_bit 5 (drop_bit 5 (unat b)))
            (symbols (int 5 + 3) (push_bit (5 - 5) (unat b)) [])
        = bytes (int 5) (push_bit 5 (drop_bit 5 (unat b))) [push_bit (5 - 5) (unat b) AND 31]"
      by (simp only: symbols_last [of 5])
    also have "\<dots> = [of_nat (push_bit 5 (drop_bit 5 (unat b))
          OR ((push_bit (5 - 5) (unat b) AND 31) AND 255))]"
      by (simp only: bytes_full bytes.simps(1))
    also have "\<dots> = [b]"
      using x by (simp only: emit_full_last) simp
    finally show ?thesis unfolding q .
  qed
next
  case (Cons b' bs)
  have x: "unat b < 256" and y: "unat b' < 256" by (rule unat_byte)+
  let ?v1 = "(push_bit (5 - q) (unat b) OR drop_bit (q + 3) (unat b')) AND 31"
  let ?v2 = "drop_bit (q - 2) (unat b') AND 31"
  consider "q \<le> 2" | "3 \<le> q" "q < 5" | "q = 5" using Cons.prems by linarith
  then show ?case
  proof cases
    case 1
    with Cons.prems have q5: "q < 5" by simp
    let ?rest = "symbols (int (q + 3) + 3) (push_bit (5 - (q + 3)) (unat b')) bs"
    have "bytes (int q) (push_bit q (drop_bit q (unat b)))
            (symbols (int q + 3) (push_bit (5 - q) (unat b)) (b' # bs))
        = bytes (int q) (push_bit q (drop_bit q (unat b))) (?v1 # ?rest)"
      using 1 by (simp only: symbols_low)
    also have "\<dots> = of_nat (push_bit q (drop_bit q (unat b)) OR drop_bit (5 - q) (?v1 AND 255))
          # bytes (int (q + 3)) (push_bit (q + 3) (?v1 AND 255) AND 255) ?rest"
      using q5 by (simp only: bytes_emit)
    also have "\<dots> = of_nat (unat b)
          # bytes (int (q + 3)) (push_bit (q + 3) (drop_bit (q + 3) (unat b'))) ?rest"
      using x y Cons.prems q5 by (simp only: emit_next carry_next)
    also have "\<dots> = b # b' # bs"
    proof -
      have "bytes (int (q + 3)) (push_bit (q + 3) (drop_bit (q + 3) (unat b'))) ?rest = b' # bs"
        by (rule Cons.IH) (use 1 in simp_all)
      then show ?thesis by (simp only: of_nat_unat_byte)
    qed
    finally show ?thesis .
  next
    case 2
    let ?rest = "symbols (int (q - 2) + 3) (push_bit (5 - (q - 2)) (unat b')) bs"
    have "bytes (int q) (push_bit q (drop_bit q (unat b)))
            (symbols (int q + 3) (push_bit (5 - q) (unat b)) (b' # bs))
        = bytes (int q) (push_bit q (drop_bit q (unat b))) (?v1 # ?v2 # ?rest)"
      using 2 by (simp only: symbols_high)
    also have "\<dots> = of_nat (push_bit q (drop_bit q (unat b)) OR drop_bit (5 - q) (?v1 AND 255))
          # bytes (int (q + 3)) (push_bit (q + 3) (?v1 AND 255) AND 255) (?v2 # ?rest)"
      using 2 by (simp only: bytes_emit)
    also have "\<dots> = of_nat (unat b)
          # bytes (int (q + 3)) (push_bit (q + 3) (drop_bit (q + 3) (unat b'))) (?v2 # ?rest)"
      using x y Cons.prems 2 by (simp only: emit_next carry_next)
    also have "\<dots> = of_nat (unat b)
          # bytes (int (q + 3 - 5)) (push_bit (q + 3) (drop_bit (q + 3) (unat b'))
               OR push_bit (q + 3 - 5) (?v2 AND 255)) ?rest"
      using 2 by (simp only: bytes_accumulate [of "q + 3"])
    also have "\<dots> = of_nat (unat b)
          # bytes (int (q - 2)) (push_bit (q - 2) (drop_bit (q - 2) (unat b'))) ?rest"
      using 2 carry_second [OF y, of q "push_bit (q + 3) (drop_bit (q + 3) (unat b'))"]
      by simp
    also have "\<dots> = b # b' # bs"
    proof -
      have "bytes (int (q - 2)) (push_bit (q - 2) (drop_bit (q - 2) (unat b'))) ?rest = b' # bs"
        by (rule Cons.IH) (use 2 in simp_all)
      then show ?thesis by (simp only: of_nat_unat_byte)
    qed
    finally show ?thesis .
  next
    case 3
    let ?w1 = "(push_bit (5 - 5) (unat b) OR drop_bit (5 + 3) (unat b')) AND 31"
    let ?w2 = "drop_bit (5 - 2) (unat b') AND 31"
    let ?rest = "symbols (int (5 - 2) + 3) (push_bit (5 - (5 - 2)) (unat b')) bs"
    have "bytes (int 5) (push_bit 5 (drop_bit 5 (unat b)))
            (symbols (int 5 + 3) (push_bit (5 - 5) (unat b)) (b' # bs))
        = bytes (int 5) (push_bit 5 (drop_bit 5 (unat b))) (?w1 # ?w2 # ?rest)"
      by (simp only: symbols_high [of 5])
    also have "\<dots> = of_nat (push_bit 5 (drop_bit 5 (unat b)) OR (?w1 AND 255))
          # bytes (int 8) 0 (?w2 # ?rest)"
      by (simp only: bytes_full)
    also have "\<dots> = of_nat (unat b) # bytes (int 8) 0 (?w2 # ?rest)"
      using x y by (simp only: emit_full)
    also have "\<dots> = of_nat (unat b)
          # bytes (int (8 - 5)) (0 OR push_bit (8 - 5) (?w2 AND 255)) ?rest"
      by (simp only: bytes_accumulate [of 8])
    also have "\<dots> = of_nat (unat b)
          # bytes (int (5 - 2)) (push_bit (5 - 2) (drop_bit (5 - 2) (unat b'))) ?rest"
      using carry_first [OF y] by simp
    also have "\<dots> = b # b' # bs"
    proof -
      have "bytes (int (5 - 2)) (push_bit (5 - 2) (drop_bit (5 - 2) (unat b'))) ?rest = b' # bs"
        by (rule Cons.IH) simp_all
      then show ?thesis by (simp only: of_nat_unat_byte)
    qed
    finally show ?thesis unfolding 3 .
  qed
qed

lemma round_trip_values: "bytes 8 0 (symbols 3 0 bs) = bs"
proof (cases bs)
  case Nil
  then show ?thesis by simp
next
  case (Cons b bs')
  have y: "unat b < 256" by (rule unat_byte)
  have "bytes (int 8) 0 (symbols (int 0 + 3) 0 (b # bs'))
      = bytes (int 8) 0 (((0 OR drop_bit (0 + 3) (unat b)) AND 31)
          # symbols (int (0 + 3) + 3) (push_bit (5 - (0 + 3)) (unat b)) bs')"
    by (simp only: symbols_low [of 0])
  also have "\<dots> = bytes (int (8 - 5))
        (0 OR push_bit (8 - 5) (((0 OR drop_bit (0 + 3) (unat b)) AND 31) AND 255))
        (symbols (int (0 + 3) + 3) (push_bit (5 - (0 + 3)) (unat b)) bs')"
    by (simp only: bytes_accumulate [of 8])
  also have "\<dots> = bytes (int 3) (push_bit 3 (drop_bit 3 (unat b)))
        (symbols (int 3 + 3) (push_bit (5 - 3) (unat b)) bs')"
    using carry_first [OF y] by simp
  also have "\<dots> = b # bs'"
    by (rule round_trip_phase) simp_all
  finally show ?thesis using Cons by simp
qed

section \<open>The states of the two machines\<close>

text \<open>
  From the initial state on, the shift counter of the encoders stays between 3 and 8
  and their carry below \<open>2 ^ 12\<close>; that of the decoders stays between 1 and 8 and their
  carry below \<open>2 ^ 8\<close>, the looked-up values being below 32. No bitwise operation of
  the source therefore leaves the range where the 32-bit operators of JavaScript
  agree with those of the naturals.
\<close>

lemma push_bit_byte_bound: "byte < 256 \<Longrightarrow> k \<le> 4 \<Longrightarrow> push_bit k byte < (4096::nat)"
proof -
  assume b: "byte < 256" and k: "k \<le> 4"
  have "byte * 2 ^ k \<le> 255 * 2 ^ 4"
    using b k by (intro mult_le_mono power_increasing) simp_all
  then show ?thesis by (simp add: push_bit_eq_mult)
qed

lemma encodeToString_step_range:
  assumes "3 \<le> shift" and "shift \<le> 8" and "byte < 256"
    and "encodeToString_step a byte (r, shift, carry) = (r', shift', carry')"
  shows "3 \<le> shift' \<and> shift' \<le> 8 \<and> carry' < 4096"
proof (cases "shift > 5")
  case True
  with assms have "shift' = shift - 2" "carry' = push_bit (nat (10 - shift)) byte"
    by (auto simp: Let_def BITS_PER_CHAR_def)
  with True assms(2,3) show ?thesis
    by (simp add: push_bit_byte_bound)
next
  case False
  with assms have "shift' = shift + 3" "carry' = push_bit (nat (5 - shift)) byte"
    by (auto simp: Let_def BITS_PER_CHAR_def)
  with False assms(1,3) show ?thesis
    by (simp add: push_bit_byte_bound)
qed

lemma encode_step_range:
  assumes "3 \<le> shift" and "shift \<le> 8" and "byte < 256"
    and "encode_step bm byte (r, shift, carry, idx) = (r', shift', carry', idx')"
  shows "3 \<le> shift' \<and> shift' \<le> 8 \<and> carry' < 4096"
proof (cases "shift > 5")
  case True
  with assms have "shift' = shift - 2" "carry' = push_bit (nat (10 - shift)) byte"
    by (auto simp: Let_def BITS_PER_CHAR_def)
  with True assms(2,3) show ?thesis
    by (simp add: push_bit_byte_bound)
next
  case False
  with assms have "shift' = shift + 3" "carry' = push_bit (nat (5 - shift)) byte"
    by (auto simp: Let_def BITS_PER_CHAR_def)
  with False assms(1,3) show ?thesis
    by (simp add: push_bit_byte_bound)
qed

lemma or_byte_bound: "(x::nat) < 256 \<Longrightarrow> y < 256 \<Longrightarrow> x OR y < 256"
proof -
  assume "x < 256" and "y < 256"
  then have "take_bit 8 x = x" "take_bit 8 y = y"
    by (simp_all add: take_bit_nat_eq_self)
  then have "take_bit 8 (x OR y) = x OR y"
    by (simp add: take_bit_or)
  then show ?thesis
    using take_bit_nat_less_exp [of 8 "x OR y"] by simp
qed

lemma push_bit_value_bound: "v < 32 \<Longrightarrow> k \<le> 3 \<Longrightarrow> push_bit k v < (256::nat)"
proof -
  assume v: "v < 32" and k: "k \<le> 3"
  have "v * 2 ^ k \<le> 31 * 2 ^ 3"
    using v k by (intro mult_le_mono power_increasing) simp_all
  then show ?thesis by (simp add: push_bit_eq_mult)
qed

lemma decode_step_range:
  assumes "1 \<le> shift" and "shift \<le> 8" and "carry < 256" and "v < 32"
    and "decode_step v (r, shift, carry, idx) = (r', shift', carry', idx')"
  shows "1 \<le> shift' \<and> shift' \<le> 8 \<and> carry' < 256"
proof -
  have v: "v AND 255 = v"
    using assms(4) by (simp add: and_255 take_bit_nat_eq_self)
  have m: "x AND 255 < 256" for x :: nat
    using take_bit_nat_less_exp [of 8 x] by (simp add: and_255)
  consider "shift > 5" | "shift < 5" | "shift = 5" by linarith
  then show ?thesis
  proof cases
    case 1
    with assms(5) have "shift' = shift - 5" "carry' = carry OR push_bit (nat (shift - 5)) v"
      by (auto simp: Let_def BITS_PER_CHAR_def v)
    with 1 assms(2,3,4) show ?thesis
      by (simp add: or_byte_bound push_bit_value_bound)
  next
    case 2
    with assms(5) have "shift' = 3 + shift" "carry' = push_bit (nat (3 + shift)) v AND 255"
      by (auto simp: Let_def BITS_PER_CHAR_def v)
    with 2 assms(1) show ?thesis
      by (simp add: m)
  next
    case 3
    with assms(5) have "shift' = 8" "carry' = 0"
      by (auto simp: Let_def BITS_PER_CHAR_def)
    then show ?thesis by simp
  qed
qed

section \<open>Lemmas linking each loop to the sequence it emits\<close>

lemma and_31_less: "x AND 31 < (32::nat)"
  using take_bit_nat_less_exp [of 5 x] by (simp add: and_31)

lemma symbols_bound: "v \<in> set (symbols sh c bs) \<Longrightarrow> v < 32"
  by (induction bs arbitrary: sh c) (auto simp: and_31_less split: if_splits)

lemma length_writes: "length (writes xs i ys) = length xs"
  by (induction ys arbitrary: xs i) simp_all

lemma writes_inside:
  "i + length ys \<le> length xs \<Longrightarrow> writes xs i ys = take i xs @ ys @ drop (i + length ys) xs"
proof (induction ys arbitrary: xs i)
  case Nil
  then show ?case by simp
next
  case (Cons y ys)
  then have i: "i < length xs" by simp
  have "writes (xs[i := y]) (Suc i) ys =
      take (Suc i) (xs[i := y]) @ ys @ drop (Suc i + length ys) (xs[i := y])"
    using Cons.prems by (intro Cons.IH) simp
  also have "take (Suc i) (xs[i := y]) = take i xs @ [y]"
    using i by (simp add: take_Suc_conv_app_nth)
  also have "drop (Suc i + length ys) (xs[i := y]) = drop (Suc i + length ys) xs"
    by simp
  finally show ?case by simp
qed

lemma writes_all: "length ys = n \<Longrightarrow> writes (replicate n z) 0 ys = ys"
  using writes_inside [of 0 ys "replicate n z"] by simp

lemma encode_loop_foldl:
  "encode_loop bm input is st =
     foldl (\<lambda>st b. encode_step bm (unat b) st) st (map ((!) input) is)"
  by (induction "is" arbitrary: st) simp_all

lemma encode_foldl_symbols:
  "(case foldl (\<lambda>st b. encode_step bm (unat b) st) (res, sh, c, idx) bs of
      (r, sh', c', idx') \<Rightarrow> if sh' \<noteq> 3 then r[idx' := bm ! (c' AND 0x1f)] else r) =
   writes res idx (map ((!) bm) (symbols sh c bs))"
  by (induction bs arbitrary: res sh c idx) (simp_all add: Let_def BITS_PER_CHAR_def)

lemma encode_symbols:
  "encode cod input None None = map ((!) (baseMapSymbol cod)) (symbols 3 0 input)"
proof -
  have "encode cod input None None =
      writes (replicate ((length input * 8 + 4) div 5) 0) 0
        (map ((!) (baseMapSymbol cod)) (symbols 3 0 input))"
    using encode_foldl_symbols [of "baseMapSymbol cod" _ 3 0 0 input]
    by (simp add: encode_def Let_def toStartIndex_def toEndIndex_def sliceIndex_def
          encode_loop_foldl map_nth encode_buffer_length)
  then show ?thesis
    by (simp add: writes_all length_symbols_initial)
qed

lemma encodeToString_symbols_whole:
  "encodeToString cod input None None = map ((!) (alphabetSymbol cod)) (symbols 3 0 input)"
  by (simp add: encodeToString_symbols toStartIndex_def toEndIndex_def sliceIndex_def map_nth)

lemma decode_foldl_bytes:
  "fst (foldl (\<lambda>st v. decode_step v st) (res, sh, c, idx) vs) =
     writes res idx (bytes sh c vs) \<and>
   snd (snd (snd (foldl (\<lambda>st v. decode_step v st) (res, sh, c, idx) vs))) =
     idx + length (bytes sh c vs)"
proof (induction vs arbitrary: res sh c idx)
  case Nil
  show ?case by simp
next
  case (Cons v vs)
  consider "sh > 5" | "sh < 5" | "sh = 5" by linarith
  then show ?case
  proof cases
    case 1
    then show ?thesis by (simp add: Let_def BITS_PER_CHAR_def Cons.IH)
  next
    case 2
    then show ?thesis by (simp add: Let_def BITS_PER_CHAR_def Cons.IH)
  next
    case 3
    then show ?thesis by (simp add: Let_def BITS_PER_CHAR_def Cons.IH)
  qed
qed

lemma length_bytes:
  "1 \<le> sh \<Longrightarrow> sh \<le> 8 \<Longrightarrow>
   int (length (bytes sh c vs)) = (8 - sh + 5 * int (length vs)) div 8"
proof (induction vs arbitrary: sh c)
  case Nil
  then show ?case by simp
next
  case (Cons v vs)
  show ?case
  proof (cases "sh > 5")
    case True
    with Cons.prems have "int (length (bytes (sh - 5) (c OR push_bit (nat (sh - 5)) (v AND 0xff)) vs))
        = (8 - (sh - 5) + 5 * int (length vs)) div 8"
      by (intro Cons.IH) auto
    with True show ?thesis by simp
  next
    case False
    show ?thesis
    proof (cases "sh = 5")
      case True
      have "int (length (bytes 8 0 vs)) = (8 - 8 + 5 * int (length vs)) div 8"
        by (intro Cons.IH) auto
      with True show ?thesis by simp
    next
      case ne: False
      with False Cons.prems have "int (length (bytes (sh - 5 + 8)
            (push_bit (nat (sh - 5 + 8)) (v AND 0xff) AND 0xff) vs))
        = (8 - (sh - 5 + 8) + 5 * int (length vs)) div 8"
        by (intro Cons.IH) auto
      with False ne show ?thesis by simp
    qed
  qed
qed

lemma length_bytes_initial: "length (bytes 8 0 vs) = 5 * length vs div 8"
proof -
  have "int (length (bytes 8 0 vs)) = int (5 * length vs div 8)"
    using length_bytes [of 8 0 vs] by (simp add: zdiv_int)
  then show ?thesis by (simp only: of_nat_eq_iff)
qed

text \<open>The result of either decoder once its loop has run on the values \<open>vs\<close>.\<close>

lemma decode_finish_foldl:
  "decode_finish (foldl (\<lambda>st v. decode_step v st)
      (replicate (5 * length vs div 8) 0, 8, 0, 0) vs) = bytes 8 0 vs"
proof -
  obtain r sh c idx where st: "foldl (\<lambda>st v. decode_step v st)
      (replicate (5 * length vs div 8) 0, 8, 0, 0) vs = (r, sh, c, idx)"
    using prod_cases4 by blast
  from decode_foldl_bytes [of "replicate (5 * length vs div 8) 0" 8 0 0 vs]
  have r: "r = writes (replicate (5 * length vs div 8) 0) 0 (bytes 8 0 vs)"
    and idx: "idx = length (bytes 8 0 vs)"
    by (simp_all add: st)
  from r have r': "r = bytes 8 0 vs"
    by (simp add: writes_all length_bytes_initial)
  with idx have "r[idx := x] = r" for x
    by (simp add: list_update_beyond)
  with st r' show ?thesis by simp
qed

lemma decodeFromString_loop_valid:
  "\<forall>i\<in>set is. lk (s ! i) \<noteq> None \<Longrightarrow>
   decodeFromString_loop lk s is st =
     Inr (foldl (\<lambda>st v. decode_step v st) st (map (\<lambda>i. the (lk (s ! i))) is))"
  by (induction "is" arbitrary: st) (auto simp: Let_def)

lemma decode_loop_valid:
  "\<forall>i\<in>set is. lk (unat (s ! i)) \<noteq> None \<Longrightarrow>
   decode_loop lk s is st =
     Inr (foldl (\<lambda>st v. decode_step v st) st (map (\<lambda>i. the (lk (unat (s ! i)))) is))"
  by (induction "is" arbitrary: st) (auto simp: Let_def)

lemma decodeFromString_values:
  assumes "\<forall>v\<in>set vs. lk (a ! v) = Some v" and "alphabetLookupSymbol cod = lk"
  shows "decodeFromString cod (map ((!) a) vs) None None = Inr (bytes 8 0 vs)"
proof -
  let ?s = "map ((!) a) vs"
  have valid: "\<forall>i\<in>set [0..<length ?s]. lk (?s ! i) \<noteq> None"
    using assms(1) by simp
  have "map (\<lambda>i. the (lk (?s ! i))) [0..<length ?s] = map (\<lambda>c. the (lk c)) ?s"
    by (rule map_nth_whole)
  also have "\<dots> = vs"
    using assms(1) by (simp add: map_idI)
  finally have vals: "map (\<lambda>i. the (lk (?s ! i))) [0..<length ?s] = vs" .
  have "decodeFromString_loop lk ?s [0..<length ?s] (replicate (5 * length vs div 8) 0, 8, 0, 0) =
      Inr (foldl (\<lambda>st v. decode_step v st) (replicate (5 * length vs div 8) 0, 8, 0, 0) vs)"
    using decodeFromString_loop_valid [OF valid] vals by simp
  then show ?thesis
    using decode_buffer_length [of "length vs"]
    by (simp add: decodeFromString_def decodeFromStringSymbol_def Let_def assms(2)
          toStartIndex_def toEndIndex_def sliceIndex_def decode_finish_foldl)
qed

lemma decode_values:
  assumes "\<forall>v\<in>set vs. lk (unat (bm ! v)) = Some v" and "baseMapLookupSymbol cod = lk"
  shows "decode cod (map ((!) bm) vs) None None = Inr (bytes 8 0 vs)"
proof -
  let ?s = "map ((!) bm) vs"
  have valid: "\<forall>i\<in>set [0..<length ?s]. lk (unat (?s ! i)) \<noteq> None"
    using assms(1) by simp
  have "map (\<lambda>i. the (lk (unat (?s ! i)))) [0..<length ?s] = map (\<lambda>c. the (lk (unat c))) ?s"
    by (rule map_nth_whole)
  also have "\<dots> = vs"
    using assms(1) by (simp add: map_idI)
  finally have vals: "map (\<lambda>i. the (lk (unat (?s ! i)))) [0..<length ?s] = vs" .
  have "decode_loop lk ?s [0..<length ?s] (replicate (5 * length vs div 8) 0, 8, 0, 0) =
      Inr (foldl (\<lambda>st v. decode_step v st) (replicate (5 * length vs div 8) 0, 8, 0, 0) vs)"
    using decode_loop_valid [OF valid] vals by simp
  then show ?thesis
    using decode_buffer_length [of "length vs"]
    by (simp add: decode_def Let_def assms(2)
          toStartIndex_def toEndIndex_def sliceIndex_def decode_finish_foldl)
qed

lemma reversed_alphabet_tables:
  "createAlphabetLookups (utf16 ''ZYXWVTSRQPNMKJHGFEDCBA9876543210'') =
     \<lparr>lookup = Map.empty(90 \<mapsto> 0, 122 \<mapsto> 0, 89 \<mapsto> 1, 121 \<mapsto> 1, 88 \<mapsto> 2, 120 \<mapsto> 2, 87 \<mapsto> 3, 119 \<mapsto> 3, 86 \<mapsto> 4, 118 \<mapsto> 4, 84 \<mapsto> 5, 116 \<mapsto> 5, 83 \<mapsto> 6, 115 \<mapsto> 6, 82 \<mapsto> 7, 114 \<mapsto> 7, 81 \<mapsto> 8, 113 \<mapsto> 8, 80 \<mapsto> 9, 112 \<mapsto> 9, 78 \<mapsto> 10, 110 \<mapsto> 10, 77 \<mapsto> 11, 109 \<mapsto> 11, 75 \<mapsto> 12, 107 \<mapsto> 12, 74 \<mapsto> 13, 106 \<mapsto> 13, 72 \<mapsto> 14, 104 \<mapsto> 14, 71 \<mapsto> 15, 103 \<mapsto> 15, 70 \<mapsto> 16, 102 \<mapsto> 16, 69 \<mapsto> 17, 101 \<mapsto> 17, 68 \<mapsto> 18, 100 \<mapsto> 18, 67 \<mapsto> 19, 99 \<mapsto> 19, 66 \<mapsto> 20, 98 \<mapsto> 20, 65 \<mapsto> 21, 97 \<mapsto> 21, 57 \<mapsto> 22, 56 \<mapsto> 23, 55 \<mapsto> 24, 54 \<mapsto> 25, 53 \<mapsto> 26, 52 \<mapsto> 27, 51 \<mapsto> 28, 50 \<mapsto> 29, 49 \<mapsto> 30, 73 \<mapsto> 30, 105 \<mapsto> 30, 76 \<mapsto> 30, 108 \<mapsto> 30, 48 \<mapsto> 31, 79 \<mapsto> 31, 111 \<mapsto> 31),
      baseMap = [90, 89, 88, 87, 86, 84, 83, 82, 81, 80, 78, 77, 75, 74, 72, 71, 70, 69, 68, 67, 66, 65, 57, 56, 55, 54, 53, 52, 51, 50, 49, 48],
      baseMapLookup = Map.empty(90 \<mapsto> 0, 122 \<mapsto> 0, 89 \<mapsto> 1, 121 \<mapsto> 1, 88 \<mapsto> 2, 120 \<mapsto> 2, 87 \<mapsto> 3, 119 \<mapsto> 3, 86 \<mapsto> 4, 118 \<mapsto> 4, 84 \<mapsto> 5, 116 \<mapsto> 5, 83 \<mapsto> 6, 115 \<mapsto> 6, 82 \<mapsto> 7, 114 \<mapsto> 7, 81 \<mapsto> 8, 113 \<mapsto> 8, 80 \<mapsto> 9, 112 \<mapsto> 9, 78 \<mapsto> 10, 110 \<mapsto> 10, 77 \<mapsto> 11, 109 \<mapsto> 11, 75 \<mapsto> 12, 107 \<mapsto> 12, 74 \<mapsto> 13, 106 \<mapsto> 13, 72 \<mapsto> 14, 104 \<mapsto> 14, 71 \<mapsto> 15, 103 \<mapsto> 15, 70 \<mapsto> 16, 102 \<mapsto> 16, 69 \<mapsto> 17, 101 \<mapsto> 17, 68 \<mapsto> 18, 100 \<mapsto> 18, 67 \<mapsto> 19, 99 \<mapsto> 19, 66 \<mapsto> 20, 98 \<mapsto> 20, 65 \<mapsto> 21, 97 \<mapsto> 21, 57 \<mapsto> 22, 56 \<mapsto> 23, 55 \<mapsto> 24, 54 \<mapsto> 25, 53 \<mapsto> 26, 52 \<mapsto> 27, 51 \<mapsto> 28, 50 \<mapsto> 29, 49 \<mapsto> 30, 73 \<mapsto> 30, 105 \<mapsto> 30, 76 \<mapsto> 30, 108 \<mapsto> 30, 48 \<mapsto> 31, 79 \<mapsto> 31, 111 \<mapsto> 31)\<rparr>"
  unfolding createAlphabetLookups_def upt_BASE replicate_BASE utf16_def
  by (simp add: createAlphabetLookups_step_def list_update_Cons_numeral)

lemma reversed_canonical_lookups:
  "canonical_lookups (new_codec (utf16 ''ZYXWVTSRQPNMKJHGFEDCBA9876543210''))"
  unfolding canonical_lookups_def upt_BASE new_codec_def Let_def reversed_alphabet_tables
  by (simp add: utf16_def)

section \<open>Round trip of the bytes\<close>

text \<open>
  Claim C1, as amended. For every byte sequence \<open>B\<close>, the empty one included, decoding
  the encoding of \<open>B\<close> returns \<open>B\<close>, in the string form and in the byte-buffer form, on
  the default codec and on every codec whose lookups send each of its 32 canonical
  symbols back to its own index.
\<close>

theorem byte_round_trip:
  assumes "canonical_lookups cod"
  shows "decodeFromString cod (encodeToString cod B None None) None None = Inr B \<and>
         decode cod (encode cod B None None) None None = Inr B"
proof -
  have small: "\<forall>v\<in>set (symbols 3 0 B). v < BASE"
    using symbols_bound [of _ 3 0 B] by (simp add: BASE_def)
  with assms have
    "\<forall>v\<in>set (symbols 3 0 B). alphabetLookupSymbol cod (alphabetSymbol cod ! v) = Some v"
    "\<forall>v\<in>set (symbols 3 0 B). baseMapLookupSymbol cod (unat (baseMapSymbol cod ! v)) = Some v"
    by (simp_all add: canonical_lookupsD)
  then show ?thesis
    by (simp add: encodeToString_symbols_whole encode_symbols decodeFromString_values
          decode_values round_trip_values)
qed

theorem byte_round_trip_witness:
  "canonical_lookups base32Crockford \<and>
   decodeFromString base32Crockford
     (encodeToString base32Crockford [0xff, 0x00, 0x5a] None None) None None =
       Inr [0xff, 0x00, 0x5a] \<and>
   decode base32Crockford (encode base32Crockford [0xff, 0x00, 0x5a] None None) None None =
       Inr [0xff, 0x00, 0x5a] \<and>
   canonical_lookups (new_codec (utf16 ''ZYXWVTSRQPNMKJHGFEDCBA9876543210'')) \<and>
   decodeFromString (new_codec (utf16 ''ZYXWVTSRQPNMKJHGFEDCBA9876543210''))
     (encodeToString (new_codec (utf16 ''ZYXWVTSRQPNMKJHGFEDCBA9876543210'')) [] None None)
     None None = Inr []"
  using byte_round_trip [OF default_canonical_lookups, of "[0xff, 0x00, 0x5a]"]
    byte_round_trip [OF reversed_canonical_lookups, of "[]"]
    default_canonical_lookups reversed_canonical_lookups
  by simp

text \<open>
  The claim as stated fails on a constructed codec: the alphabet that starts with \<open>O\<close>
  and ends with \<open>0\<close> is accepted; its symbol \<open>O\<close> (value 0) becomes an alias of its
  symbol \<open>0\<close> (value 31), so the byte 0 is encoded as \<open>"OO"\<close>, which decodes to the
  byte 255, in either form.
\<close>

theorem byte_round_trip_counterexample:
  "Base32Crockford (Some (utf16 ''O123456789ABCDEFGHJKMNPQRSTVWXY0'')) =
     Inr (new_codec (utf16 ''O123456789ABCDEFGHJKMNPQRSTVWXY0'')) \<and>
   encodeToString (new_codec (utf16 ''O123456789ABCDEFGHJKMNPQRSTVWXY0'')) [0] None None =
     utf16 ''OO'' \<and>
   decodeFromString (new_codec (utf16 ''O123456789ABCDEFGHJKMNPQRSTVWXY0''))
     (encodeToString (new_codec (utf16 ''O123456789ABCDEFGHJKMNPQRSTVWXY0'')) [0] None None)
     None None = Inr [0xff] \<and>
   decode (new_codec (utf16 ''O123456789ABCDEFGHJKMNPQRSTVWXY0''))
     (encode (new_codec (utf16 ''O123456789ABCDEFGHJKMNPQRSTVWXY0'')) [0] None None)
     None None = Inr [0xff]"
proof -
  let ?a = "utf16 ''O123456789ABCDEFGHJKMNPQRSTVWXY0''"
  have ok: "Base32Crockford (Some ?a) = Inr (new_codec ?a)"
    by (simp add: Base32Crockford_Inr default_alphabetLookup utf16_def BASE_def)
  have a0: "?a ! 0 = of_char (CHR ''O'')"
    by (simp add: utf16_def)
  have enc: "encodeToString (new_codec ?a) [0] None None = utf16 ''OO''"
    by (simp add: encodeToString_symbols_whole new_codec_def Let_def a0) (simp add: utf16_def)
  have encb: "encode (new_codec ?a) [0] None None = [0x4f, 0x4f]"
    by (simp add: encode_symbols new_codec_def Let_def aliased_alphabet_tables)
  have dec: "decodeFromString (new_codec ?a) (utf16 ''OO'') None None = Inr [0xff]"
    using aliased_alphabet_tables(1)
    by (simp add: decodeFromString_def decodeFromStringSymbol_def toStartIndex_def toEndIndex_def
          sliceIndex_def BITS_PER_CHAR_def new_codec_def Let_def utf16_def)
  have decb: "decode (new_codec ?a) [0x4f, 0x4f] None None = Inr [0xff]"
    using aliased_alphabet_tables(2)
    by (simp add: decode_def toStartIndex_def toEndIndex_def
          sliceIndex_def BITS_PER_CHAR_def new_codec_def Let_def)
  from ok enc encb dec decb show ?thesis by simp
qed

end
